theory Spec2Isabelle
  imports Main "HOL-Library.AList" "HOL-Library.Multiset"
begin

section \<open>Python values and errors\<close>

text \<open>
  The two modules are Python. An exception is a value of \<open>error\<close>; a function that can
  raise returns \<open>error + 'a\<close> with \<open>Inl\<close> for the exception. A \<open>ValueError\<close> carries
  its message, or the name of the conversion (\<open>int\<close>, \<open>float\<close>) that raised it.
\<close>

datatype error = KeyError | TypeError | IndexError | ValueError string

fun lookup_all :: "('k \<rightharpoonup> 'v) \<Rightarrow> 'k list \<Rightarrow> error + 'v list" where
  "lookup_all d [] = Inr []"
| "lookup_all d (p # ps) =
     (case d p of
        None \<Rightarrow> Inl KeyError
      | Some v \<Rightarrow> (case lookup_all d ps of Inl e \<Rightarrow> Inl e | Inr vs \<Rightarrow> Inr (v # vs)))"

section \<open>Strings, numerals and dictionaries\<close>

text \<open>
  A string is a list of characters; the model covers ASCII text. \<open>is_space\<close> is
  \<open>str.isspace\<close> on ASCII: the white space of \<open>str.strip\<close> and of the regular
  expression class \<open>\s\<close>. It includes the four separators 0x1C to 0x1F.
\<close>

definition is_space :: "char \<Rightarrow> bool" where
  "is_space c \<longleftrightarrow> c \<in> set [CHR 0x09, CHR 0x0A, CHR 0x0B, CHR 0x0C, CHR 0x0D,
                              CHR 0x1C, CHR 0x1D, CHR 0x1E, CHR 0x1F, CHR 0x20]"

definition is_digit :: "char \<Rightarrow> bool" where
  "is_digit c \<longleftrightarrow> c \<in> set ''0123456789''"

definition strip :: "string \<Rightarrow> string" where
  "strip s = rev (dropWhile is_space (rev (dropWhile is_space s)))"

text \<open>\<open>str(i)\<close> for a natural number: its decimal digits.\<close>

definition digit_char :: "nat \<Rightarrow> char" where
  "digit_char d = ''0123456789'' ! d"

function str_nat :: "nat \<Rightarrow> string" where
  "str_nat n = (if n < 10 then [digit_char n] else str_nat (n div 10) @ [digit_char (n mod 10)])"
  by pat_completeness auto
termination
  by (relation "measure id") auto

declare str_nat.simps [simp del]

text \<open>
  The numeric conversions \<open>int(s)\<close> and \<open>float(s)\<close> skip a narrower white space
  around the numeral than \<open>str.strip\<close> removes: tab, line feed, vertical tab, form
  feed, carriage return and space only. A separator 0x1C to 0x1F next to the numeral
  makes them raise \<open>ValueError\<close>.
\<close>

definition is_c_space :: "char \<Rightarrow> bool" where
  "is_c_space c \<longleftrightarrow> c \<in> set [CHR 0x09, CHR 0x0A, CHR 0x0B, CHR 0x0C, CHR 0x0D, CHR 0x20]"

definition c_strip :: "string \<Rightarrow> string" where
  "c_strip s = rev (dropWhile is_c_space (rev (dropWhile is_c_space s)))"

text \<open>
  \<open>int(s)\<close> in base 10: that white space around the numeral is dropped, one sign may
  lead, and single underscores may separate digits; anything else raises \<open>ValueError\<close>.
  The conversions are those of the language, for numerals of any length: the bound
  that an interpreter may put on the number of digits converted between \<open>str\<close> and
  \<open>int\<close> (\<open>sys.int_max_str_digits\<close>, a setting of the interpreter, 0 for none) is
  not a part of \<open>str_nat\<close> and \<open>py_int\<close>.
\<close>

definition digit_val :: "char \<Rightarrow> nat" where
  "digit_val c = length (takeWhile (\<lambda>d. d \<noteq> c) ''0123456789'')"

definition digits_val :: "string \<Rightarrow> nat" where
  "digits_val ds = fold (\<lambda>c a. 10 * a + digit_val c) ds 0"

fun int_body_ok :: "string \<Rightarrow> bool" where
  "int_body_ok [] = False"
| "int_body_ok [c] = is_digit c"
| "int_body_ok (c # d # r) =
     (is_digit c \<and> (if d = CHR ''_'' then int_body_ok r else int_body_ok (d # r)))"

definition py_int :: "string \<Rightarrow> error + int" where
  "py_int s =
     (let t = c_strip s;
          neg = (t \<noteq> [] \<and> hd t = CHR ''-'');
          body = (if t \<noteq> [] \<and> (hd t = CHR ''-'' \<or> hd t = CHR ''+'') then tl t else t)
      in if int_body_ok body
         then Inr ((if neg then - 1 else 1) * int (digits_val (filter (\<lambda>c. c \<noteq> CHR ''_'') body)))
         else Inl (ValueError ''int''))"

text \<open>The placeholder name \<open>f"X{i}"\<close> and the sort key \<open>int(x[1:])\<close>.\<close>

definition placeholder :: "nat \<Rightarrow> string" where
  "placeholder i = CHR ''X'' # str_nat i"

definition name_index :: "string \<Rightarrow> error + int" where
  "name_index x = py_int (drop 1 x)"

text \<open>
  A dictionary that the code builds and updates is an association list with distinct
  keys in insertion order: \<open>d[k] = v\<close> is \<open>AList.update k v d\<close> (in place for a
  known key, at the end for a new one), \<open>d[k]\<close> is \<open>map_of d k\<close> with \<open>KeyError\<close>
  for \<open>None\<close>. A dictionary that is only read is a map.
\<close>

type_synonym ('k, 'v) dict = "('k \<times> 'v) list"

definition dict_get :: "('k, 'v) dict \<Rightarrow> 'k \<Rightarrow> 'v \<Rightarrow> 'v" where
  "dict_get d k dflt = (case map_of d k of None \<Rightarrow> dflt | Some v \<Rightarrow> v)"

section \<open>Topological sort and renaming\<close>

text \<open>
  \<open>topological_sort\<close>, first loop: for every variable and every parent in its list,
  \<open>in_degree[v] += 1\<close> and \<open>children.setdefault(p, []).append(v)\<close>.
\<close>

fun add_edges ::
  "string \<Rightarrow> string list \<Rightarrow> (string, string list) dict \<times> (string, int) dict
     \<Rightarrow> error + (string, string list) dict \<times> (string, int) dict" where
  "add_edges v [] (children, in_degree) = Inr (children, in_degree)"
| "add_edges v (p # ps) (children, in_degree) =
     (case map_of in_degree v of
        None \<Rightarrow> Inl KeyError
      | Some n \<Rightarrow>
          add_edges v ps
            (AList.update p (dict_get children p [] @ [v]) children,
             AList.update v (n + 1) in_degree))"

fun build_graph ::
  "string list \<Rightarrow> (string \<rightharpoonup> string list)
     \<Rightarrow> (string, string list) dict \<times> (string, int) dict
     \<Rightarrow> error + (string, string list) dict \<times> (string, int) dict" where
  "build_graph [] var_parents st = Inr st"
| "build_graph (v # vs) var_parents st =
     (case var_parents v of
        None \<Rightarrow> Inl KeyError
      | Some ps \<Rightarrow>
          (case add_edges v ps st of
             Inl e \<Rightarrow> Inl e
           | Inr st' \<Rightarrow> build_graph vs var_parents st'))"

text \<open>\<open>[v for v in var_names if in_degree[v] == 0]\<close>\<close>

fun zero_in_degree :: "string list \<Rightarrow> (string, int) dict \<Rightarrow> error + string list" where
  "zero_in_degree [] in_degree = Inr []"
| "zero_in_degree (v # vs) in_degree =
     (case map_of in_degree v of
        None \<Rightarrow> Inl KeyError
      | Some n \<Rightarrow>
          (case zero_in_degree vs in_degree of
             Inl e \<Rightarrow> Inl e
           | Inr q \<Rightarrow> Inr (if n = 0 then v # q else q)))"

text \<open>
  \<open>queue.sort(key=lambda x: int(x[1:]))\<close>: the keys of all elements are computed
  (any of them may raise), then the list is sorted by key, stably.
\<close>

fun sort_keys :: "string list \<Rightarrow> error + int list" where
  "sort_keys [] = Inr []"
| "sort_keys (x # xs) =
     (case name_index x of
        Inl e \<Rightarrow> Inl e
      | Inr k \<Rightarrow> (case sort_keys xs of Inl e \<Rightarrow> Inl e | Inr ks \<Rightarrow> Inr (k # ks)))"

definition sort_by_suffix :: "string list \<Rightarrow> error + string list" where
  "sort_by_suffix queue =
     (case sort_keys queue of
        Inl e \<Rightarrow> Inl e
      | Inr ks \<Rightarrow> Inr (map snd (sort_key fst (zip ks queue))))"

text \<open>
  The inner loop over \<open>children.get(v, [])\<close>: \<open>in_degree[child] -= 1\<close>, and the child
  joins the queue when its count reaches zero.
\<close>

fun process_children ::
  "string list \<Rightarrow> string list \<times> (string, int) dict
     \<Rightarrow> error + string list \<times> (string, int) dict" where
  "process_children [] (queue, in_degree) = Inr (queue, in_degree)"
| "process_children (child # cs) (queue, in_degree) =
     (case map_of in_degree child of
        None \<Rightarrow> Inl KeyError
      | Some n \<Rightarrow>
          process_children cs
            (if n - 1 = 0 then queue @ [child] else queue,
             AList.update child (n - 1) in_degree))"

definition in_degree_weight :: "(string, int) dict \<Rightarrow> nat" where
  "in_degree_weight d = sum_list (map (\<lambda>(k, n). nat n) d)"

lemma in_degree_weight_update:
  "map_of d c = Some n \<Longrightarrow>
     in_degree_weight (AList.update c m d) + nat n = in_degree_weight d + nat m"
  by (induction d) (auto simp: in_degree_weight_def)

lemma process_children_weight:
  "process_children cs (q, d) = Inr (q', d') \<Longrightarrow>
     length q' + in_degree_weight d' \<le> length q + in_degree_weight d"
proof (induction cs arbitrary: q d)
  case Nil
  then show ?case by simp
next
  case (Cons c cs)
  from Cons.prems obtain n where n: "map_of d c = Some n"
    by (auto split: option.splits)
  let ?q = "if n - 1 = 0 then q @ [c] else q"
  let ?d = "AList.update c (n - 1) d"
  from Cons.prems n have "process_children cs (?q, ?d) = Inr (q', d')"
    by simp
  then have le: "length q' + in_degree_weight d' \<le> length ?q + in_degree_weight ?d"
    by (rule Cons.IH)
  from in_degree_weight_update [OF n, of "n - 1"]
  have "length ?q + in_degree_weight ?d \<le> length q + in_degree_weight d"
    by (auto split: if_splits)
  with le show ?case by linarith
qed

lemma sort_keys_length: "sort_keys xs = Inr ks \<Longrightarrow> length ks = length xs"
  by (induction xs arbitrary: ks) (auto split: sum.splits)

lemma sort_by_suffix_length: "sort_by_suffix q = Inr q' \<Longrightarrow> length q' = length q"
  by (auto simp: sort_by_suffix_def sort_keys_length split: sum.splits)

text \<open>
  The \<open>while queue\<close> loop. It ends on every input: each round takes one name off the
  queue, and a name joins the queue only when a positive count drops to zero.
\<close>

function kahn_loop ::
  "(string, string list) dict \<Rightarrow> string list \<times> string list \<times> (string, int) dict
     \<Rightarrow> error + string list" where
  "kahn_loop children (queue, sorted_list, in_degree) =
     (if queue = [] then Inr sorted_list
      else
        (case sort_by_suffix queue of
           Inl e \<Rightarrow> Inl e
         | Inr sq \<Rightarrow>
             (case process_children (dict_get children (hd sq) []) (tl sq, in_degree) of
                Inl e \<Rightarrow> Inl e
              | Inr (queue', in_degree') \<Rightarrow>
                  kahn_loop children (queue', sorted_list @ [hd sq], in_degree'))))"
  by pat_completeness auto
termination
proof (relation "measure (\<lambda>(children, queue, sorted_list, in_degree).
                   length queue + in_degree_weight in_degree)", goal_cases)
  case 1
  show ?case by simp
next
  case (2 children queue sorted_list in_degree sq x2 queue' in_degree')
  from 2 have "length sq = length queue" and "queue \<noteq> []"
    by (auto dest: sort_by_suffix_length)
  then have "length (tl sq) < length queue"
    by (cases sq) auto
  moreover from 2 have "length queue' + in_degree_weight in_degree'
      \<le> length (tl sq) + in_degree_weight in_degree"
    by (auto dest: process_children_weight)
  ultimately show ?case by simp
qed

declare kahn_loop.simps [simp del]

definition topological_sort ::
  "string list \<Rightarrow> (string \<rightharpoonup> string list) \<Rightarrow> error + string list" where
  "topological_sort var_names var_parents =
     (case build_graph var_names var_parents
             (fold (\<lambda>v. AList.update v []) var_names [],
              fold (\<lambda>v. AList.update v 0) var_names []) of
        Inl e \<Rightarrow> Inl e
      | Inr (children, in_degree) \<Rightarrow>
          (case zero_in_degree var_names in_degree of
             Inl e \<Rightarrow> Inl e
           | Inr queue \<Rightarrow>
               (case kahn_loop children (queue, [], in_degree) of
                  Inl e \<Rightarrow> Inl e
                | Inr sorted_list \<Rightarrow>
                    if length sorted_list \<noteq> length var_names
                    then Inl (ValueError ''Graph is not a DAG!'')
                    else Inr sorted_list)))"

text \<open>
  \<open>reassign_names\<close>: \<open>renaming\<close> sends the \<open>i\<close>-th sorted name (from 0) to
  \<open>X(i+1)\<close>; \<open>new_parents\<close> rewrites every parent list through it.
\<close>

definition make_renaming :: "string list \<Rightarrow> (string, string) dict" where
  "make_renaming sorted_vars =
     fold (\<lambda>(i, old). AList.update old (placeholder (i + 1))) (enumerate 0 sorted_vars) []"

fun rename_all :: "(string, string) dict \<Rightarrow> string list \<Rightarrow> error + string list" where
  "rename_all renaming [] = Inr []"
| "rename_all renaming (p # ps) =
     (case map_of renaming p of
        None \<Rightarrow> Inl KeyError
      | Some q \<Rightarrow> (case rename_all renaming ps of Inl e \<Rightarrow> Inl e | Inr qs \<Rightarrow> Inr (q # qs)))"

fun rename_parents ::
  "(string, string) dict \<Rightarrow> (string \<rightharpoonup> string list) \<Rightarrow> string list
     \<Rightarrow> (string, string list) dict \<Rightarrow> error + (string, string list) dict" where
  "rename_parents renaming var_parents [] new_parents = Inr new_parents"
| "rename_parents renaming var_parents (old # rest) new_parents =
     (case map_of renaming old of
        None \<Rightarrow> Inl KeyError
      | Some new_var \<Rightarrow>
          (case var_parents old of
             None \<Rightarrow> Inl KeyError
           | Some ps \<Rightarrow>
               (case rename_all renaming ps of
                  Inl e \<Rightarrow> Inl e
                | Inr qs \<Rightarrow>
                    rename_parents renaming var_parents rest
                      (AList.update new_var qs new_parents))))"

definition reassign_names ::
  "string list \<Rightarrow> (string \<rightharpoonup> string list)
     \<Rightarrow> error + string list \<times> (string, string list) dict \<times> (string, string) dict" where
  "reassign_names sorted_vars var_parents =
     (let renaming = make_renaming sorted_vars in
      case rename_parents renaming var_parents sorted_vars [] of
        Inl e \<Rightarrow> Inl e
      | Inr new_parents \<Rightarrow>
          (case rename_all renaming sorted_vars of
             Inl e \<Rightarrow> Inl e
           | Inr new_names \<Rightarrow> Inr (new_names, new_parents, renaming)))"

section \<open>Topology generators\<close>

text \<open>
  \<open>var_names = [f"X{i}" for i in range(1, num_vars+1)]\<close>, and \<open>var_names[i]\<close> with its
  \<open>IndexError\<close>. \<open>num_vars\<close> is a natural number: every range of the source is empty for
  a negative \<open>num_vars\<close> as it is for 0.
\<close>

definition var_names_of :: "nat \<Rightarrow> string list" where
  "var_names_of num_vars = map placeholder [1..<num_vars + 1]"

definition var_name :: "nat \<Rightarrow> nat \<Rightarrow> error + string" where
  "var_name num_vars i =
     (if i < num_vars then Inr (var_names_of num_vars ! i) else Inl IndexError)"


















section \<open>The lexicographic enumerator\<close>

text \<open>
  \<open>itertools.product(*pools)\<close>, as the Python documentation defines it:
  \<^verbatim>\<open>
  result = [[]]
  for pool in pools:
      result = [x+[y] for x in result for y in pool]
  \<close>
\<close>

definition itertools_product :: "'a list list \<Rightarrow> 'a list list" where
  "itertools_product pools =
     fold (\<lambda>pool result. concat (map (\<lambda>x. map (\<lambda>y. x @ [y]) pool) result)) pools [[]]"

text \<open>
  \<open>generate_lexicographic_order\<close> of \<open>bif_converter.py\<close>: the comprehension
  \<open>[var_domains[p] for p in parents]\<close> raises \<open>KeyError\<close> at a parent without a domain.
\<close>

definition generate_lexicographic_order ::
  "string list \<Rightarrow> (string \<rightharpoonup> 'a list) \<Rightarrow> error + 'a list list" where
  "generate_lexicographic_order parents var_domains =
     (case lookup_all var_domains parents of
        Inl e \<Rightarrow> Inl e
      | Inr domains \<Rightarrow> Inr (itertools_product domains))"

text \<open>\<open>lexicographic_assignments\<close> of \<open>network_generator.py\<close>.\<close>

definition lexicographic_assignments ::
  "string list \<Rightarrow> (string \<rightharpoonup> 'a list) \<Rightarrow> error + 'a list list" where
  "lexicographic_assignments parents var_domains =
     (case lookup_all var_domains parents of
        Inl e \<Rightarrow> Inl e
      | Inr domains \<Rightarrow> Inr (itertools_product domains))"

text \<open>
  Row-major order, stated independently of the code: the assignment at position \<open>k\<close>
  is the mixed-radix numeral of \<open>k\<close> whose digit for a parent indexes that parent's
  domain, the first parent being the most significant digit and the last parent the
  least significant one (so the last parent varies fastest).
\<close>

fun assignment_at :: "'a list list \<Rightarrow> nat \<Rightarrow> 'a list" where
  "assignment_at [] k = []"
| "assignment_at (d # ds) k =
     (d ! (k div prod_list (map length ds))) # assignment_at ds (k mod prod_list (map length ds))"

definition row_major :: "'a list list \<Rightarrow> 'a list list" where
  "row_major doms = map (assignment_at doms) [0..<prod_list (map length doms)]"

subsection \<open>The enumerator is the row-major product\<close>

lemma lookup_all_map:
  "set ps \<subseteq> dom d \<Longrightarrow> lookup_all d ps = Inr (map (\<lambda>p. the (d p)) ps)"
  by (induction ps) auto

lemma fold_product_lists:
  "fold (\<lambda>pool result. concat (map (\<lambda>x. map (\<lambda>y. x @ [y]) pool) result)) pools acc
     = concat (map (\<lambda>x. map ((@) x) (product_lists pools)) acc)"
proof (induction pools arbitrary: acc)
  case Nil
  show ?case by (induction acc) auto
next
  case (Cons p ps)
  have "concat (map (\<lambda>x. map ((@) x) (product_lists ps)) (concat (map (\<lambda>x. map (\<lambda>y. x @ [y]) p) acc)))
        = concat (map (\<lambda>x. map ((@) x) (product_lists (p # ps))) acc)"
  proof (induction acc)
    case Nil
    show ?case by simp
  next
    case (Cons a acc)
    have "concat (map (\<lambda>x. map ((@) x) (product_lists ps)) (map (\<lambda>y. a @ [y]) p))
          = map ((@) a) (concat (map (\<lambda>x. map ((#) x) (product_lists ps)) p))"
      by (induction p) (auto simp: comp_def)
    with Cons show ?case by simp
  qed
  with Cons.IH show ?case by simp
qed

lemma map_append_Nil: "map ((@) []) xs = xs"
  by (induction xs) auto

lemma itertools_product_product_lists: "itertools_product pools = product_lists pools"
  by (simp add: itertools_product_def fold_product_lists map_append_Nil)

lemma upt_blocks: "[0..<Suc n * P] = [0..<P] @ map (\<lambda>k. k + P) [0..<n * P]"
proof -
  have "[0..<Suc n * P] = [0..<P + n * P]" by simp
  also have "\<dots> = [0..<P] @ [P..<P + n * P]"
    by (rule upt_add_eq_append) simp
  also have "[P..<P + n * P] = map (\<lambda>k. k + P) [0..<n * P]"
    by (simp add: map_add_upt add.commute)
  finally show ?thesis .
qed

lemma concat_blocks:
  "concat (map (\<lambda>x. map (g x) [0..<P]) d)
     = map (\<lambda>k. g (d ! (k div P)) (k mod P)) [0..<length d * P]"
proof (cases "P = 0")
  case True
  then show ?thesis by (induction d) auto
next
  case False
  show ?thesis
  proof (induction d)
    case Nil
    show ?case by simp
  next
    case (Cons x d)
    have a: "map (\<lambda>k. g ((x # d) ! (k div P)) (k mod P)) [0..<P] = map (g x) [0..<P]"
      by (rule map_cong) auto
    have b: "map (\<lambda>k. g ((x # d) ! ((k + P) div P)) ((k + P) mod P)) [0..<length d * P]
             = map (\<lambda>k. g (d ! (k div P)) (k mod P)) [0..<length d * P]"
      using False by (intro map_cong) (auto simp: div_add_self2)
    have "map (\<lambda>k. g ((x # d) ! (k div P)) (k mod P)) [0..<length (x # d) * P]
          = map (g x) [0..<P] @ map (\<lambda>k. g (d ! (k div P)) (k mod P)) [0..<length d * P]"
      unfolding length_Cons upt_blocks map_append map_map comp_def a b ..
    with Cons.IH show ?case by simp
  qed
qed

lemma product_lists_row_major: "product_lists doms = row_major doms"
proof (induction doms)
  case Nil
  show ?case by (simp add: row_major_def)
next
  case (Cons d ds)
  have "product_lists (d # ds)
        = concat (map (\<lambda>x. map (\<lambda>k. x # assignment_at ds k) [0..<prod_list (map length ds)]) d)"
    using Cons.IH by (simp add: row_major_def comp_def)
  also have "\<dots> = row_major (d # ds)"
    by (simp add: concat_blocks row_major_def)
  finally show ?case .
qed

section \<open>Claims about the enumerator\<close>

text \<open>
  C1. For every ordered list of parent names and every mapping that gives each of those
  names an ordered domain, both enumerators return exactly the Cartesian product of the
  domains in row-major order, the last parent varying fastest; for parents \<open>[A, B]\<close> with
  domains \<open>[a1, a2]\<close> and \<open>[b1, b2, b3]\<close> the result is
  \<open>[(a1,b1), (a1,b2), (a1,b3), (a2,b1), (a2,b2), (a2,b3)]\<close>.
\<close>

theorem enumerator_row_major:
  "set parents \<subseteq> dom var_domains \<Longrightarrow>
     generate_lexicographic_order parents var_domains
       = Inr (row_major (map (\<lambda>p. the (var_domains p)) parents))
   \<and> lexicographic_assignments parents var_domains
       = Inr (row_major (map (\<lambda>p. the (var_domains p)) parents))
   \<and> set (row_major (map (\<lambda>p. the (var_domains p)) parents))
       = {xs. list_all2 (\<lambda>x p. x \<in> set (the (var_domains p))) xs parents}
   \<and> generate_lexicographic_order [''A'', ''B'']
        [''A'' \<mapsto> [''a1'', ''a2''], ''B'' \<mapsto> [''b1'', ''b2'', ''b3'']]
       = Inr [[''a1'', ''b1''], [''a1'', ''b2''], [''a1'', ''b3''],
              [''a2'', ''b1''], [''a2'', ''b2''], [''a2'', ''b3'']]"
proof (intro conjI)
  assume sub: "set parents \<subseteq> dom var_domains"
  show "generate_lexicographic_order parents var_domains
          = Inr (row_major (map (\<lambda>p. the (var_domains p)) parents))"
    using sub
    by (simp add: generate_lexicographic_order_def lookup_all_map
        itertools_product_product_lists product_lists_row_major)
  show "lexicographic_assignments parents var_domains
          = Inr (row_major (map (\<lambda>p. the (var_domains p)) parents))"
    using sub
    by (simp add: lexicographic_assignments_def lookup_all_map
        itertools_product_product_lists product_lists_row_major)
  show "set (row_major (map (\<lambda>p. the (var_domains p)) parents))
          = {xs. list_all2 (\<lambda>x p. x \<in> set (the (var_domains p))) xs parents}"
    by (simp add: product_lists_row_major [symmetric] product_lists_set list_all2_map2)
  show "generate_lexicographic_order [''A'', ''B'']
          [''A'' \<mapsto> [''a1'', ''a2''], ''B'' \<mapsto> [''b1'', ''b2'', ''b3'']]
        = Inr [[''a1'', ''b1''], [''a1'', ''b2''], [''a1'', ''b3''],
               [''a2'', ''b1''], [''a2'', ''b2''], [''a2'', ''b3'']]"
    by (simp add: generate_lexicographic_order_def itertools_product_def)
qed

theorem enumerator_row_major_witness:
  "set [''B'', ''A''] \<subseteq> dom [''A'' \<mapsto> [''0'', ''1''], ''B'' \<mapsto> [''x'', ''y'']]
   \<and> lexicographic_assignments [''B'', ''A''] [''A'' \<mapsto> [''0'', ''1''], ''B'' \<mapsto> [''x'', ''y'']]
       = Inr [[''x'', ''0''], [''x'', ''1''], [''y'', ''0''], [''y'', ''1'']]"
proof -
  have h: "set [''B'', ''A''] \<subseteq> dom [''A'' \<mapsto> [''0'', ''1''], ''B'' \<mapsto> [''x'', ''y'']]"
    by simp
  have "row_major [[''x'', ''y''], [''0'', ''1'']]
        = [[''x'', ''0''], [''x'', ''1''], [''y'', ''0''], [''y'', ''1'']]"
    by code_simp
  with enumerator_row_major [OF h] h show ?thesis by simp
qed

text \<open>
  C2. On the same parent list and the same domain mapping, the serializer-side
  enumerator and the generator-side enumerator return the same result: the same list of
  assignments, or the same error when a parent has no domain.
\<close>

theorem enumerators_agree:
  "generate_lexicographic_order parents var_domains
     = lexicographic_assignments parents var_domains"
  by (simp add: generate_lexicographic_order_def lexicographic_assignments_def)

text \<open>
  C10. With an empty parent list, each enumerator returns the list whose only element
  is the empty assignment, whatever the domain mapping is.
\<close>

theorem enumerator_no_parents:
  "generate_lexicographic_order [] var_domains = Inr [[]]
   \<and> lexicographic_assignments [] var_domains = Inr [[]]"
  by (simp add: generate_lexicographic_order_def lexicographic_assignments_def
      itertools_product_def)

section \<open>Decimal numerals: \<open>int(str(n)) = n\<close>\<close>

lemma digit_char_cases:
  "d < 10 \<Longrightarrow> digit_char d \<in> set ''0123456789'' \<and> digit_val (digit_char d) = d"
proof -
  assume "d < 10"
  then have "d \<in> {0, 1, 2, 3, 4, 5, 6, 7, 8, 9}" by auto
  then show ?thesis
    by (auto simp: digit_char_def digit_val_def)
qed

definition plain_digits :: "string \<Rightarrow> bool" where
  "plain_digits s \<longleftrightarrow> s \<noteq> [] \<and> (\<forall>c \<in> set s. is_digit c)"

lemma is_digit_digit_char: "d < 10 \<Longrightarrow> is_digit (digit_char d)"
  using digit_char_cases [of d] by (simp add: is_digit_def)

lemma plain_digits_str_nat: "plain_digits (str_nat n)"
proof (induction n rule: str_nat.induct)
  case (1 n)
  show ?case
  proof (cases "n < 10")
    case True
    then show ?thesis by (simp add: str_nat.simps [of n] plain_digits_def is_digit_digit_char)
  next
    case False
    with 1 show ?thesis
      by (simp add: str_nat.simps [of n] plain_digits_def is_digit_digit_char)
  qed
qed

lemma digits_val_snoc: "digits_val (s @ [c]) = 10 * digits_val s + digit_val c"
  by (simp add: digits_val_def)

lemma digits_val_str_nat: "digits_val (str_nat n) = n"
proof (induction n rule: str_nat.induct)
  case (1 n)
  show ?case
  proof (cases "n < 10")
    case True
    then show ?thesis
      using digit_char_cases [of n] by (simp add: str_nat.simps [of n] digits_val_def)
  next
    case False
    with 1 digit_char_cases [of "n mod 10"] show ?thesis
      by (simp add: str_nat.simps [of n] digits_val_snoc)
  qed
qed

lemma is_digit_not_special:
  "is_digit c \<Longrightarrow> \<not> is_c_space c \<and> c \<noteq> CHR ''-'' \<and> c \<noteq> CHR ''+'' \<and> c \<noteq> CHR ''_''"
  by (auto simp: is_digit_def is_c_space_def)

lemma dropWhile_none: "\<forall>c \<in> set s. \<not> P c \<Longrightarrow> dropWhile P s = s"
  by (cases s) auto

lemma plain_digits_strip: "plain_digits s \<Longrightarrow> c_strip s = s"
proof -
  assume a: "plain_digits s"
  then have ns: "\<forall>c \<in> set s. \<not> is_c_space c"
    by (simp add: plain_digits_def is_digit_not_special)
  then have "dropWhile is_c_space s = s"
    by (rule dropWhile_none)
  moreover from ns have "dropWhile is_c_space (rev s) = rev s"
    by (intro dropWhile_none) simp
  ultimately show ?thesis by (simp add: c_strip_def)
qed

lemma plain_digits_body_ok: "plain_digits s \<Longrightarrow> int_body_ok s"
  by (induction s rule: int_body_ok.induct)
     (auto simp: plain_digits_def is_digit_not_special)

lemma plain_digits_filter: "plain_digits s \<Longrightarrow> filter (\<lambda>c. c \<noteq> CHR ''_'') s = s"
  by (auto simp: plain_digits_def is_digit_not_special filter_id_conv)

lemma py_int_plain_digits: "plain_digits s \<Longrightarrow> py_int s = Inr (int (digits_val s))"
proof -
  assume a: "plain_digits s"
  then have "s \<noteq> []" and "is_digit (hd s)" by (auto simp: plain_digits_def)
  then have "hd s \<noteq> CHR ''-''" and "hd s \<noteq> CHR ''+''"
    using is_digit_not_special by blast+
  with a show ?thesis
    by (simp add: py_int_def plain_digits_strip plain_digits_body_ok plain_digits_filter)
qed

lemma name_index_examples:
  "name_index ''X 7'' = Inr 7"
  "name_index [CHR ''X'', CHR 0x09, CHR ''7'', CHR 0x0A] = Inr 7"
  "name_index [CHR ''X'', CHR 0x1F, CHR ''7''] = Inl (ValueError ''int'')"
  "name_index [CHR ''X'', CHR ''7'', CHR 0x1C] = Inl (ValueError ''int'')"
  "name_index ''X-1_0'' = Inr (- 10)"
  "name_index ''X'' = Inl (ValueError ''int'')"
  by code_simp+

lemma name_index_placeholder: "name_index (placeholder n) = Inr (int n)"
  by (simp add: name_index_def placeholder_def py_int_plain_digits plain_digits_str_nat
      digits_val_str_nat)

lemma placeholder_inj: "placeholder a = placeholder b \<Longrightarrow> a = b"
proof -
  assume "placeholder a = placeholder b"
  then have "name_index (placeholder a) = name_index (placeholder b)" by simp
  then show "a = b" by (simp add: name_index_placeholder)
qed

section \<open>Correctness of the topological sort\<close>

text \<open>
  \<open>parents_of\<close> reads a parent list, \<open>parent_edges\<close> is the graph the sort works on
  (an edge from every listed parent to its child, for the children in \<open>var_names\<close>),
  \<open>kids_of\<close> is what the first loop leaves in \<open>children\<close>, \<open>topo_ordered\<close> says that the
  parents of every element stand before it, and \<open>kahn_inv\<close> is the invariant of the
  \<open>while\<close> loop.
\<close>

definition parents_of :: "(string \<rightharpoonup> string list) \<Rightarrow> string \<Rightarrow> string list" where
  "parents_of var_parents v = (case var_parents v of None \<Rightarrow> [] | Some ps \<Rightarrow> ps)"

definition kids_of :: "string list \<Rightarrow> (string \<rightharpoonup> string list) \<Rightarrow> string \<Rightarrow> string list" where
  "kids_of vs vp p = concat (map (\<lambda>v. replicate (count_list (parents_of vp v) p) v) vs)"

lemma dict_get_update:
  "dict_get (AList.update k v d) k' dflt = (if k' = k then v else dict_get d k' dflt)"
  by (simp add: dict_get_def update_conv')

lemma add_edges_result:
  "map_of deg v = Some n \<Longrightarrow>
   \<exists>ch' deg'. add_edges v ps (ch, deg) = Inr (ch', deg')
      \<and> map_of deg' = (map_of deg)(v \<mapsto> n + int (length ps))
      \<and> (\<forall>p. dict_get ch' p [] = dict_get ch p [] @ replicate (count_list ps p) v)"
proof (induction ps arbitrary: ch deg n)
  case Nil
  then show ?case by (auto simp: fun_upd_idem)
next
  case (Cons p ps)
  let ?ch = "AList.update p (dict_get ch p [] @ [v]) ch"
  let ?deg = "AList.update v (n + 1) deg"
  have "map_of ?deg v = Some (n + 1)" by (simp add: update_conv')
  from Cons.IH [OF this, of ?ch] obtain ch' deg' where
    r: "add_edges v ps (?ch, ?deg) = Inr (ch', deg')"
    and d: "map_of deg' = (map_of ?deg)(v \<mapsto> n + 1 + int (length ps))"
    and c: "\<forall>q. dict_get ch' q [] = dict_get ?ch q [] @ replicate (count_list ps q) v"
    by blast
  have "add_edges v (p # ps) (ch, deg) = Inr (ch', deg')"
    using Cons.prems r by simp
  moreover have "map_of deg' = (map_of deg)(v \<mapsto> n + int (length (p # ps)))"
    using d by (simp add: update_conv' add.assoc)
  moreover have "\<forall>q. dict_get ch' q [] = dict_get ch q [] @ replicate (count_list (p # ps) q) v"
    using c by (auto simp: dict_get_update replicate_append_same)
  ultimately show ?case by blast
qed

lemma build_graph_result:
  "distinct ws \<Longrightarrow> set ws \<subseteq> dom (map_of deg) \<Longrightarrow> set ws \<subseteq> dom vp \<Longrightarrow>
   \<exists>ch' deg'. build_graph ws vp (ch, deg) = Inr (ch', deg')
      \<and> (\<forall>v. map_of deg' v =
             (if v \<in> set ws then map_option (\<lambda>n. n + int (length (parents_of vp v))) (map_of deg v)
              else map_of deg v))
      \<and> (\<forall>p. dict_get ch' p [] = dict_get ch p [] @ kids_of ws vp p)"
proof (induction ws arbitrary: ch deg)
  case Nil
  then show ?case by (simp add: kids_of_def)
next
  case (Cons w ws)
  from Cons.prems obtain n ps where n: "map_of deg w = Some n" and ps: "vp w = Some ps"
    by auto
  from add_edges_result [OF n, of ps ch] obtain ch1 deg1 where
    r1: "add_edges w ps (ch, deg) = Inr (ch1, deg1)"
    and d1: "map_of deg1 = (map_of deg)(w \<mapsto> n + int (length ps))"
    and c1: "\<forall>p. dict_get ch1 p [] = dict_get ch p [] @ replicate (count_list ps p) w"
    by blast
  have "set ws \<subseteq> dom (map_of deg1)" using Cons.prems d1 by auto
  with Cons.prems Cons.IH [of deg1 ch1] obtain ch' deg' where
    r: "build_graph ws vp (ch1, deg1) = Inr (ch', deg')"
    and d: "\<forall>v. map_of deg' v =
             (if v \<in> set ws then map_option (\<lambda>n. n + int (length (parents_of vp v))) (map_of deg1 v)
              else map_of deg1 v)"
    and c: "\<forall>p. dict_get ch' p [] = dict_get ch1 p [] @ kids_of ws vp p"
    by auto
  have "build_graph (w # ws) vp (ch, deg) = Inr (ch', deg')"
    using ps r1 r by simp
  moreover have "\<forall>v. map_of deg' v =
             (if v \<in> set (w # ws) then map_option (\<lambda>n. n + int (length (parents_of vp v))) (map_of deg v)
              else map_of deg v)"
    using d d1 n ps Cons.prems(1) by (auto simp: parents_of_def)
  moreover have "\<forall>p. dict_get ch' p [] = dict_get ch p [] @ kids_of (w # ws) vp p"
    using c c1 ps by (simp add: kids_of_def parents_of_def)
  ultimately show ?case by blast
qed

lemma build_graph_dom: "build_graph ws vp st = Inr st' \<Longrightarrow> set ws \<subseteq> dom vp"
  by (induction ws arbitrary: st) (auto split: option.splits sum.splits)

lemma map_of_fold_update:
  "map_of (fold (\<lambda>v. AList.update v c) vs d) k = (if k \<in> set vs then Some c else map_of d k)"
  by (induction vs arbitrary: d) (auto simp: update_conv')

lemma zero_in_degree_result:
  "set ws \<subseteq> dom (map_of deg) \<Longrightarrow>
     zero_in_degree ws deg = Inr (filter (\<lambda>v. map_of deg v = Some 0) ws)"
  by (induction ws) auto

lemma set_kids_of: "set (kids_of vs vp p) = {v \<in> set vs. p \<in> set (parents_of vp v)}"
  by (auto simp: kids_of_def count_list_0_iff)

lemma count_kids_of:
  "distinct vs \<Longrightarrow>
     count_list (kids_of vs vp p) c = (if c \<in> set vs then count_list (parents_of vp c) p else 0)"
proof (induction vs)
  case Nil
  then show ?case by (simp add: kids_of_def)
next
  case (Cons v vs)
  have rep: "\<And>n x y. count_list (replicate n x) y = (if x = y then n else 0)"
    subgoal for n x y by (induction n) auto
    done
  from Cons show ?case
    by (auto simp: kids_of_def rep)
qed

lemma process_children_result:
  "set cs \<subseteq> dom (map_of d) \<Longrightarrow>
   \<exists>new d'. process_children cs (q, d) = Inr (q @ new, d')
      \<and> (\<forall>c. map_of d' c = map_option (\<lambda>n. n - int (count_list cs c)) (map_of d c))
      \<and> distinct new
      \<and> set new = {c \<in> set cs. \<exists>n. map_of d c = Some n \<and> 1 \<le> n \<and> n \<le> int (count_list cs c)}"
proof (induction cs arbitrary: q d)
  case Nil
  then show ?case by (auto simp: option.map_ident map_option.identity)
next
  case (Cons c cs)
  from Cons.prems obtain n where n: "map_of d c = Some n" by auto
  let ?q = "if n - 1 = 0 then q @ [c] else q"
  let ?d = "AList.update c (n - 1) d"
  have "set cs \<subseteq> dom (map_of ?d)" using Cons.prems by (auto simp: update_conv')
  from Cons.IH [OF this, of ?q] obtain new d' where
    r: "process_children cs (?q, ?d) = Inr (?q @ new, d')"
    and m: "\<forall>x. map_of d' x = map_option (\<lambda>k. k - int (count_list cs x)) (map_of ?d x)"
    and dn: "distinct new"
    and sn: "set new = {x \<in> set cs. \<exists>k. map_of ?d x = Some k \<and> 1 \<le> k \<and> k \<le> int (count_list cs x)}"
    by blast
  let ?new = "(if n - 1 = 0 then [c] else []) @ new"
  have "process_children (c # cs) (q, d) = Inr (q @ ?new, d')"
    using n r by simp
  moreover have "\<forall>x. map_of d' x = map_option (\<lambda>k. k - int (count_list (c # cs) x)) (map_of d x)"
    using m n by (auto simp: update_conv')
  moreover have "distinct ?new"
    using dn sn by (auto simp: update_conv')
  moreover have "set ?new = {x \<in> set (c # cs). \<exists>k. map_of d x = Some k \<and> 1 \<le> k \<and> k \<le> int (count_list (c # cs) x)}"
  proof -
    have pos: "n \<noteq> 1 \<Longrightarrow> 1 \<le> n \<Longrightarrow> n \<le> 1 + int (count_list cs c) \<Longrightarrow> c \<in> set cs"
      by (cases "count_list cs c = 0") (auto simp: count_list_0_iff)
    show ?thesis
      unfolding set_append sn using n pos
      by (auto simp: update_conv' split: if_splits)
  qed
  ultimately show ?case by blast
qed


definition topo_ordered :: "(string \<Rightarrow> string list) \<Rightarrow> string list \<Rightarrow> bool" where
  "topo_ordered par s \<longleftrightarrow> (\<forall>i < length s. set (par (s ! i)) \<subseteq> set (take i s))"

definition kahn_inv ::
  "string list \<Rightarrow> (string \<Rightarrow> string list) \<Rightarrow> string list \<times> string list \<times> (string, int) dict \<Rightarrow> bool" where
  "kahn_inv vs par st \<longleftrightarrow>
     (case st of (q, s, deg) \<Rightarrow>
        distinct (s @ q) \<and> set (s @ q) \<subseteq> set vs
      \<and> (\<forall>v. map_of deg v =
            (if v \<in> set vs then Some (int (length (filter (\<lambda>p. p \<notin> set s) (par v)))) else None))
      \<and> (\<forall>v \<in> set vs. v \<in> set s \<union> set q \<longleftrightarrow> set (par v) \<subseteq> set s)
      \<and> topo_ordered par s)"

lemma topo_ordered_snoc:
  "topo_ordered par (s @ [v]) \<longleftrightarrow> topo_ordered par s \<and> set (par v) \<subseteq> set s"
  by (auto simp: topo_ordered_def nth_append less_Suc_eq)

lemma filter_unsorted_insert:
  "v \<notin> A \<Longrightarrow>
     length (filter (\<lambda>p. p \<notin> A) xs)
       = length (filter (\<lambda>p. p \<notin> insert v A) xs) + count_list xs v"
  by (induction xs) auto

lemma filter_unsorted_empty:
  "length (filter (\<lambda>p. p \<notin> A) xs) = 0 \<longleftrightarrow> set xs \<subseteq> A"
  by (induction xs) auto

lemma kahn_step:
  assumes inv: "kahn_inv vs par (q, s, deg)"
    and perm: "mset sq = mset q" and ne: "q \<noteq> []"
    and kset: "set kids = {c \<in> set vs. hd sq \<in> set (par c)}"
    and kcount: "\<forall>c. count_list kids c = (if c \<in> set vs then count_list (par c) (hd sq) else 0)"
  shows "\<exists>q' deg'. process_children kids (tl sq, deg) = Inr (q', deg')
            \<and> kahn_inv vs par (q', s @ [hd sq], deg')"
proof -
  from perm ne obtain v rest where sq: "sq = v # rest"
    by (cases sq) (auto dest: sym)
  from perm have setq: "set q = insert v (set rest)" and dq: "distinct q = distinct (v # rest)"
    unfolding sq by (metis list.simps(15) set_mset_mset, metis mset_eq_imp_distinct_iff)
  from inv have d: "distinct (s @ q)" and sub: "set (s @ q) \<subseteq> set vs"
    and deg: "\<And>c. map_of deg c =
            (if c \<in> set vs then Some (int (length (filter (\<lambda>p. p \<notin> set s) (par c)))) else None)"
    and rdy: "\<And>c. c \<in> set vs \<Longrightarrow> c \<in> set s \<union> set q \<longleftrightarrow> set (par c) \<subseteq> set s"
    and topo: "topo_ordered par s"
    by (auto simp: kahn_inv_def)
  have vs: "v \<in> set vs" and vq: "v \<in> set q" and vns: "v \<notin> set s"
    using d sub setq by auto
  have kset': "set kids = {c \<in> set vs. v \<in> set (par c)}" using kset sq by simp
  have kcount': "\<And>c. count_list kids c = (if c \<in> set vs then count_list (par c) v else 0)"
    using kcount sq by simp
  have "set kids \<subseteq> dom (map_of deg)"
    using kset' deg by (auto simp: dom_def)
  from process_children_result [OF this, of rest] obtain new deg' where
    r: "process_children kids (rest, deg) = Inr (rest @ new, deg')"
    and m: "\<And>c. map_of deg' c = map_option (\<lambda>n. n - int (count_list kids c)) (map_of deg c)"
    and dn: "distinct new"
    and sn: "set new = {c \<in> set kids. \<exists>n. map_of deg c = Some n \<and> 1 \<le> n \<and> n \<le> int (count_list kids c)}"
    by blast
  have cnt: "\<And>c. length (filter (\<lambda>p. p \<notin> set s) (par c))
       = length (filter (\<lambda>p. p \<notin> insert v (set s)) (par c)) + count_list (par c) v"
    using vns by (rule filter_unsorted_insert)
  have new_iff: "\<And>c. c \<in> set new \<longleftrightarrow>
       c \<in> set vs \<and> v \<in> set (par c) \<and> set (par c) \<subseteq> insert v (set s)"
  proof -
    fix c
    show "c \<in> set new \<longleftrightarrow> c \<in> set vs \<and> v \<in> set (par c) \<and> set (par c) \<subseteq> insert v (set s)"
    proof (cases "c \<in> set vs \<and> v \<in> set (par c)")
      case False
      then show ?thesis using sn kset' by auto
    next
      case True
      then have pos: "1 \<le> count_list (par c) v"
        by (metis count_list_0_iff less_one not_le)
      have "c \<in> set new \<longleftrightarrow>
            int (length (filter (\<lambda>p. p \<notin> set s) (par c))) \<le> int (count_list (par c) v)"
        using True sn kset' deg [of c] kcount' [of c] pos cnt [of c] by auto
      also have "\<dots> \<longleftrightarrow> length (filter (\<lambda>p. p \<notin> insert v (set s)) (par c)) = 0"
        using cnt [of c] by auto
      also have "\<dots> \<longleftrightarrow> set (par c) \<subseteq> insert v (set s)"
        by (rule filter_unsorted_empty)
      finally show ?thesis using True by simp
    qed
  qed
  have new_fresh: "\<And>c. c \<in> set new \<Longrightarrow> c \<notin> set s \<union> set q"
  proof -
    fix c assume "c \<in> set new"
    then have "c \<in> set vs" and "v \<in> set (par c)" using new_iff by auto
    with vns rdy [of c] show "c \<notin> set s \<union> set q" by auto
  qed
  have i1: "distinct ((s @ [v]) @ (rest @ new))"
    using d dq setq dn new_fresh by auto
  have i2: "set ((s @ [v]) @ (rest @ new)) \<subseteq> set vs"
    using sub setq new_iff by auto
  have i3: "\<forall>c. map_of deg' c =
            (if c \<in> set vs then Some (int (length (filter (\<lambda>p. p \<notin> set (s @ [v])) (par c)))) else None)"
    using m deg kcount' cnt by auto
  have i4: "\<forall>c \<in> set vs. c \<in> set (s @ [v]) \<union> set (rest @ new) \<longleftrightarrow> set (par c) \<subseteq> set (s @ [v])"
  proof
    fix c assume c: "c \<in> set vs"
    show "c \<in> set (s @ [v]) \<union> set (rest @ new) \<longleftrightarrow> set (par c) \<subseteq> set (s @ [v])"
    proof (cases "v \<in> set (par c)")
      case True
      then have "c \<notin> set s \<union> set q" using rdy [OF c] vns by auto
      then show ?thesis using new_iff [of c] c True setq by auto
    next
      case False
      then have "c \<notin> set new" using new_iff by auto
      then show ?thesis using rdy [OF c] False setq by auto
    qed
  qed
  have i5: "topo_ordered par (s @ [v])"
    using topo rdy [OF vs] vq by (simp add: topo_ordered_snoc)
  have "kahn_inv vs par (rest @ new, s @ [v], deg')"
    unfolding kahn_inv_def using i1 i2 i3 i4 i5 by simp
  with r show ?thesis unfolding sq by auto
qed


definition parent_edges :: "string list \<Rightarrow> (string \<rightharpoonup> string list) \<Rightarrow> (string \<times> string) set" where
  "parent_edges vs vp = {(p, c). c \<in> set vs \<and> p \<in> set (parents_of vp c)}"

lemma sort_keys_ok:
  "\<forall>x \<in> set q. \<exists>k. name_index x = Inr k \<Longrightarrow> \<exists>ks. sort_keys q = Inr ks"
  by (induction q) auto

lemma sort_by_suffix_ok:
  "\<forall>x \<in> set q. \<exists>k. name_index x = Inr k \<Longrightarrow> \<exists>sq. sort_by_suffix q = Inr sq"
  using sort_keys_ok [of q] by (auto simp: sort_by_suffix_def)

lemma sort_by_suffix_mset: "sort_by_suffix q = Inr sq \<Longrightarrow> mset sq = mset q"
proof -
  assume a: "sort_by_suffix q = Inr sq"
  then obtain ks where ks: "sort_keys q = Inr ks" and sq: "sq = map snd (sort_key fst (zip ks q))"
    by (auto simp: sort_by_suffix_def split: sum.splits)
  have "mset sq = mset (map snd (zip ks q))"
    unfolding sq by simp
  also have "map snd (zip ks q) = q"
    using sort_keys_length [OF ks] by simp
  finally show ?thesis .
qed

definition children_ok ::
  "string list \<Rightarrow> (string \<Rightarrow> string list) \<Rightarrow> (string, string list) dict \<Rightarrow> bool" where
  "children_ok vs par ch \<longleftrightarrow>
     (\<forall>p. set (dict_get ch p []) = {c \<in> set vs. p \<in> set (par c)})
   \<and> (\<forall>p c. count_list (dict_get ch p []) c
              = (if c \<in> set vs then count_list (par c) p else 0))"

lemma kahn_step_dict:
  assumes "kahn_inv vs par (q, s, deg)" and "sort_by_suffix q = Inr sq" and "q \<noteq> []"
    and "children_ok vs par ch"
  shows "\<exists>q' deg'. process_children (dict_get ch (hd sq) []) (tl sq, deg) = Inr (q', deg')
            \<and> kahn_inv vs par (q', s @ [hd sq], deg')"
  using assms(4) kahn_step [OF assms(1) sort_by_suffix_mset [OF assms(2)] assms(3),
      of "dict_get ch (hd sq) []"]
  by (simp add: children_ok_def)

lemma kahn_loop_sound:
  "children_ok vs par ch \<Longrightarrow> kahn_inv vs par st \<Longrightarrow> kahn_loop ch st = Inr sorted_list \<Longrightarrow>
     \<exists>deg. kahn_inv vs par ([], sorted_list, deg)"
proof (induction ch st rule: kahn_loop.induct)
  case (1 children queue s in_degree)
  show ?case
  proof (cases "queue = []")
    case True
    with "1.prems" show ?thesis by (auto simp: kahn_loop.simps)
  next
    case False
    from "1.prems"(3) False obtain sq where sq: "sort_by_suffix queue = Inr sq"
      by (auto simp: kahn_loop.simps split: sum.splits)
    from kahn_step_dict [OF "1.prems"(2) sq False "1.prems"(1)]
    obtain q' deg' where
      pc: "process_children (dict_get children (hd sq) []) (tl sq, in_degree) = Inr (q', deg')"
      and inv': "kahn_inv vs par (q', s @ [hd sq], deg')"
      by auto
    from "1.prems"(3) False sq pc
    have "kahn_loop children (q', s @ [hd sq], deg') = Inr sorted_list"
      by (simp add: kahn_loop.simps)
    from "1.IH" [OF False sq pc refl "1.prems"(1) inv' this] show ?thesis .
  qed
qed

lemma kahn_loop_total:
  "children_ok vs par ch \<Longrightarrow> \<forall>x \<in> set vs. \<exists>k. name_index x = Inr k \<Longrightarrow>
     kahn_inv vs par st \<Longrightarrow> \<exists>sorted_list. kahn_loop ch st = Inr sorted_list"
proof (induction ch st rule: kahn_loop.induct)
  case (1 children queue s in_degree)
  show ?case
  proof (cases "queue = []")
    case True
    then show ?thesis by (simp add: kahn_loop.simps)
  next
    case False
    from "1.prems"(3) have "set queue \<subseteq> set vs" by (auto simp: kahn_inv_def)
    with "1.prems"(2) sort_by_suffix_ok [of queue] obtain sq where sq: "sort_by_suffix queue = Inr sq"
      by auto
    from kahn_step_dict [OF "1.prems"(3) sq False "1.prems"(1)]
    obtain q' deg' where
      pc: "process_children (dict_get children (hd sq) []) (tl sq, in_degree) = Inr (q', deg')"
      and inv': "kahn_inv vs par (q', s @ [hd sq], deg')"
      by auto
    from "1.IH" [OF False sq pc refl "1.prems"(1) "1.prems"(2) inv'] obtain sorted_list where
      "kahn_loop children (q', s @ [hd sq], deg') = Inr sorted_list" by blast
    with False sq pc show ?thesis by (simp add: kahn_loop.simps)
  qed
qed


lemma kahn_start:
  assumes dvs: "distinct vs" and dom: "set vs \<subseteq> dom vp"
  shows "\<exists>ch deg q0.
           build_graph vs vp (fold (\<lambda>v. AList.update v []) vs [], fold (\<lambda>v. AList.update v 0) vs [])
             = Inr (ch, deg)
         \<and> zero_in_degree vs deg = Inr q0
         \<and> children_ok vs (parents_of vp) ch
         \<and> kahn_inv vs (parents_of vp) (q0, [], deg)"
proof -
  let ?ch0 = "fold (\<lambda>v. AList.update v ([]::string list)) vs []"
  let ?deg0 = "fold (\<lambda>v. AList.update v (0::int)) vs []"
  have d0: "\<And>k. map_of ?deg0 k = (if k \<in> set vs then Some 0 else None)"
    by (simp add: map_of_fold_update)
  have c0: "\<And>p. dict_get ?ch0 p [] = []"
    by (simp add: dict_get_def map_of_fold_update)
  have "set vs \<subseteq> dom (map_of ?deg0)" using d0 by (auto simp: dom_def)
  from build_graph_result [OF dvs this dom, of ?ch0] obtain ch deg where
    b: "build_graph vs vp (?ch0, ?deg0) = Inr (ch, deg)"
    and d: "\<And>v. map_of deg v =
             (if v \<in> set vs then map_option (\<lambda>n. n + int (length (parents_of vp v))) (map_of ?deg0 v)
              else map_of ?deg0 v)"
    and c: "\<And>p. dict_get ch p [] = dict_get ?ch0 p [] @ kids_of vs vp p"
    by blast
  have d': "\<And>v. map_of deg v = (if v \<in> set vs then Some (int (length (parents_of vp v))) else None)"
    using d d0 by simp
  have c': "\<And>p. dict_get ch p [] = kids_of vs vp p"
    using c c0 by simp
  have ok: "children_ok vs (parents_of vp) ch"
    using dvs by (simp add: children_ok_def c' set_kids_of count_kids_of)
  have "set vs \<subseteq> dom (map_of deg)" using d' by (auto simp: dom_def)
  then have z: "zero_in_degree vs deg = Inr (filter (\<lambda>v. map_of deg v = Some 0) vs)"
    by (rule zero_in_degree_result)
  have "kahn_inv vs (parents_of vp) (filter (\<lambda>v. map_of deg v = Some 0) vs, [], deg)"
    using dvs d' by (auto simp: kahn_inv_def topo_ordered_def)
  with b z ok show ?thesis by blast
qed

lemma kahn_final:
  "kahn_inv vs par ([], s, deg) \<Longrightarrow>
     distinct s \<and> set s \<subseteq> set vs \<and> topo_ordered par s
   \<and> (\<forall>v \<in> set vs. v \<in> set s \<longleftrightarrow> set (par v) \<subseteq> set s)"
  by (simp add: kahn_inv_def)

lemma topo_ordered_acyclic:
  assumes d: "distinct s" and t: "topo_ordered par s" and e: "set s = set vs"
  shows "acyclic {(p, c). c \<in> set vs \<and> p \<in> set (par c)}"
proof -
  define f where "f v = (THE i. i < length s \<and> s ! i = v)" for v
  have f: "\<And>i. i < length s \<Longrightarrow> f (s ! i) = i"
    unfolding f_def using d by (auto simp: nth_eq_iff_index_eq intro!: the_equality)
  have "{(p, c). c \<in> set vs \<and> p \<in> set (par c)} \<subseteq> measure f"
  proof clarify
    fix p c assume "c \<in> set vs" and p: "p \<in> set (par c)"
    then obtain i where i: "i < length s" "s ! i = c"
      using e by (metis in_set_conv_nth)
    with t p have "p \<in> set (take i s)" by (auto simp: topo_ordered_def)
    then obtain j where j: "j < i" "s ! j = p"
      using i(1) by (auto simp: in_set_conv_nth)
    with i f [of i] f [of j] show "(p, c) \<in> measure f" by simp
  qed
  then have "wf {(p, c). c \<in> set vs \<and> p \<in> set (par c)}"
    by (rule wf_subset [OF wf_measure])
  then show ?thesis by (rule wf_acyclic)
qed

lemma acyclic_all_sorted:
  assumes ac: "acyclic {(p, c). c \<in> set vs \<and> p \<in> set (par c)}"
    and closed: "\<forall>v \<in> set vs. set (par v) \<subseteq> set vs"
    and sub: "set s \<subseteq> set vs"
    and rdy: "\<forall>v \<in> set vs. v \<in> set s \<longleftrightarrow> set (par v) \<subseteq> set s"
  shows "set s = set vs"
proof (rule ccontr)
  let ?E = "{(p, c). c \<in> set vs \<and> p \<in> set (par c)}"
  assume "set s \<noteq> set vs"
  with sub obtain x where x: "x \<in> set vs - set s" by auto
  have "?E \<subseteq> set vs \<times> set vs" using closed by auto
  then have "finite ?E" by (rule finite_subset) simp
  with ac have "wf ?E" by (simp add: wf_iff_acyclic_if_finite)
  from wfE_min [OF this x] obtain z where z: "z \<in> set vs - set s"
    and min: "\<And>y. (y, z) \<in> ?E \<Longrightarrow> y \<notin> set vs - set s"
    by blast
  from z rdy obtain p where p: "p \<in> set (par z)" "p \<notin> set s" by auto
  with z closed have "p \<in> set vs - set s" by auto
  moreover from z p have "(p, z) \<in> ?E" by auto
  ultimately show False using min by blast
qed

lemma topological_sort_sound:
  assumes dvs: "distinct vs" and r: "topological_sort vs vp = Inr order"
  shows "set order = set vs \<and> distinct order \<and> topo_ordered (parents_of vp) order
       \<and> acyclic (parent_edges vs vp)"
proof -
  from r have "set vs \<subseteq> dom vp"
    by (auto simp: topological_sort_def split: sum.splits dest: build_graph_dom)
  from kahn_start [OF dvs this] obtain ch deg q0 where
    b: "build_graph vs vp (fold (\<lambda>v. AList.update v []) vs [], fold (\<lambda>v. AList.update v 0) vs [])
             = Inr (ch, deg)"
    and z: "zero_in_degree vs deg = Inr q0"
    and ok: "children_ok vs (parents_of vp) ch"
    and inv: "kahn_inv vs (parents_of vp) (q0, [], deg)"
    by blast
  from r b z have k: "kahn_loop ch (q0, [], deg) = Inr order" and len: "length order = length vs"
    by (auto simp: topological_sort_def split: sum.splits if_splits)
  from kahn_loop_sound [OF ok inv k] kahn_final have
    f: "distinct order" "set order \<subseteq> set vs" "topo_ordered (parents_of vp) order"
    by blast+
  have "card (set order) = card (set vs)"
    using f(1) dvs len by (simp add: distinct_card)
  with f(2) have e: "set order = set vs"
    by (simp add: card_subset_eq)
  from topo_ordered_acyclic [OF f(1) f(3) e] e f show ?thesis
    by (simp add: parent_edges_def)
qed

lemma topological_sort_complete:
  assumes dvs: "distinct vs"
    and closed: "\<forall>v \<in> set vs. \<exists>ps. vp v = Some ps \<and> set ps \<subseteq> set vs"
    and keys: "\<forall>v \<in> set vs. \<exists>k. name_index v = Inr k"
  shows "if acyclic (parent_edges vs vp)
         then \<exists>order. topological_sort vs vp = Inr order
         else topological_sort vs vp = Inl (ValueError ''Graph is not a DAG!'')"
proof -
  from closed have "set vs \<subseteq> dom vp" by auto
  from kahn_start [OF dvs this] obtain ch deg q0 where
    b: "build_graph vs vp (fold (\<lambda>v. AList.update v []) vs [], fold (\<lambda>v. AList.update v 0) vs [])
             = Inr (ch, deg)"
    and z: "zero_in_degree vs deg = Inr q0"
    and ok: "children_ok vs (parents_of vp) ch"
    and inv: "kahn_inv vs (parents_of vp) (q0, [], deg)"
    by blast
  from kahn_loop_total [OF ok keys inv] obtain s where k: "kahn_loop ch (q0, [], deg) = Inr s"
    by blast
  from kahn_loop_sound [OF ok inv k] kahn_final have
    f: "distinct s" "set s \<subseteq> set vs"
       "\<forall>v \<in> set vs. v \<in> set s \<longleftrightarrow> set (parents_of vp v) \<subseteq> set s"
    by blast+
  have ts: "topological_sort vs vp =
        (if length s \<noteq> length vs then Inl (ValueError ''Graph is not a DAG!'') else Inr s)"
    using b z k by (simp add: topological_sort_def)
  show ?thesis
  proof (cases "acyclic (parent_edges vs vp)")
    case True
    have "\<forall>v \<in> set vs. set (parents_of vp v) \<subseteq> set vs"
      using closed by (fastforce simp: parents_of_def)
    from acyclic_all_sorted [OF True [unfolded parent_edges_def] this f(2) f(3)]
    have "set s = set vs" .
    with f(1) dvs have "length s = length vs"
      by (metis distinct_card)
    with ts True show ?thesis by simp
  next
    case False
    have "length s \<noteq> length vs"
    proof
      assume "length s = length vs"
      with ts have "topological_sort vs vp = Inr s" by simp
      from topological_sort_sound [OF dvs this] False show False by simp
    qed
    with ts False show ?thesis by simp
  qed
qed

text \<open>
  The tie-break. \<open>suffix_key\<close> is the sort key \<open>int(x[1:])\<close> of a name whose suffix
  is a numeral. An order puts the smallest ready variable first when, at every
  position, the variable placed there has the least key among the variables that are
  not placed yet and whose parents are all placed: the choice that sorting the queue
  by key and popping its head makes.
\<close>

definition suffix_key :: "string \<Rightarrow> int" where
  "suffix_key x = (case name_index x of Inl e \<Rightarrow> 0 | Inr k \<Rightarrow> k)"

definition smallest_ready_first ::
  "string list \<Rightarrow> (string \<Rightarrow> string list) \<Rightarrow> string list \<Rightarrow> bool" where
  "smallest_ready_first vs par s \<longleftrightarrow>
     (\<forall>i < length s. \<forall>v \<in> set vs.
        v \<notin> set (take i s) \<and> set (par v) \<subseteq> set (take i s) \<longrightarrow> suffix_key (s ! i) \<le> suffix_key v)"

lemma sort_keys_eq: "sort_keys q = Inr ks \<Longrightarrow> ks = map suffix_key q"
  by (induction q arbitrary: ks) (auto simp: suffix_key_def split: sum.splits)

lemma insort_key_pairs:
  "\<forall>z \<in> set zs. fst z = f (snd z) \<Longrightarrow>
     map snd (insort_key fst (f x, x) zs) = insort_key f x (map snd zs)"
  by (induction zs) auto

lemma sort_key_pairs:
  "\<forall>z \<in> set zs. fst z = f (snd z) \<Longrightarrow> map snd (sort_key fst zs) = sort_key f (map snd zs)"
proof (induction zs)
  case Nil
  then show ?case by simp
next
  case (Cons z zs)
  then have ih: "map snd (sort_key fst zs) = sort_key f (map snd zs)" by simp
  from Cons.prems have z: "z = (f (snd z), snd z)" by (cases z) simp
  from Cons.prems have "\<forall>y \<in> set (sort_key fst zs). fst y = f (snd y)" by simp
  from insort_key_pairs [OF this, of "snd z"] z ih show ?case
    by (metis list.simps(9) sort_key_simps(2))
qed

lemma sort_by_suffix_eq: "sort_by_suffix q = Inr sq \<Longrightarrow> sq = sort_key suffix_key q"
proof -
  assume a: "sort_by_suffix q = Inr sq"
  then obtain ks where ks: "sort_keys q = Inr ks" and sq: "sq = map snd (sort_key fst (zip ks q))"
    by (auto simp: sort_by_suffix_def split: sum.splits)
  from sort_keys_eq [OF ks] have k: "ks = map suffix_key q" .
  have "\<forall>z \<in> set (zip ks q). fst z = suffix_key (snd z)"
    unfolding k by (auto simp: zip_map1 zip_same)
  from sort_key_pairs [OF this] have "sq = sort_key suffix_key (map snd (zip ks q))"
    unfolding sq .
  then show ?thesis unfolding k by simp
qed

lemma sorted_hd_least: "sorted (map f sq) \<Longrightarrow> x \<in> set sq \<Longrightarrow> f (hd sq) \<le> f x"
  by (cases sq) auto

lemma sort_by_suffix_least:
  "sort_by_suffix q = Inr sq \<Longrightarrow> x \<in> set q \<Longrightarrow> suffix_key (hd sq) \<le> suffix_key x"
  using sorted_hd_least [of suffix_key "sort_key suffix_key q" x] sort_by_suffix_eq [of q sq]
  by simp

lemma smallest_ready_first_snoc:
  "smallest_ready_first vs par (s @ [v]) \<longleftrightarrow>
     smallest_ready_first vs par s
   \<and> (\<forall>w \<in> set vs. w \<notin> set s \<and> set (par w) \<subseteq> set s \<longrightarrow> suffix_key v \<le> suffix_key w)"
  by (auto simp: smallest_ready_first_def nth_append less_Suc_eq)

lemma kahn_loop_least:
  "children_ok vs par ch \<Longrightarrow> kahn_inv vs par st \<Longrightarrow> smallest_ready_first vs par (fst (snd st)) \<Longrightarrow>
     kahn_loop ch st = Inr sorted_list \<Longrightarrow> smallest_ready_first vs par sorted_list"
proof (induction ch st rule: kahn_loop.induct)
  case (1 children queue s in_degree)
  show ?case
  proof (cases "queue = []")
    case True
    with "1.prems" show ?thesis by (auto simp: kahn_loop.simps)
  next
    case False
    from "1.prems"(4) False obtain sq where sq: "sort_by_suffix queue = Inr sq"
      by (auto simp: kahn_loop.simps split: sum.splits)
    from kahn_step_dict [OF "1.prems"(2) sq False "1.prems"(1)]
    obtain q' deg' where
      pc: "process_children (dict_get children (hd sq) []) (tl sq, in_degree) = Inr (q', deg')"
      and inv': "kahn_inv vs par (q', s @ [hd sq], deg')"
      by auto
    from "1.prems"(4) False sq pc
    have k: "kahn_loop children (q', s @ [hd sq], deg') = Inr sorted_list"
      by (simp add: kahn_loop.simps)
    from "1.prems"(2) have ready: "\<forall>w \<in> set vs. w \<notin> set s \<and> set (par w) \<subseteq> set s \<longrightarrow> w \<in> set queue"
      by (auto simp: kahn_inv_def)
    have "\<forall>w \<in> set vs. w \<notin> set s \<and> set (par w) \<subseteq> set s \<longrightarrow> suffix_key (hd sq) \<le> suffix_key w"
      using ready sort_by_suffix_least [OF sq] by blast
    with "1.prems"(3) have "smallest_ready_first vs par (fst (snd (q', s @ [hd sq], deg')))"
      by (simp add: smallest_ready_first_snoc)
    from "1.IH" [OF False sq pc refl "1.prems"(1) inv' this k] show ?thesis .
  qed
qed

lemma topological_sort_least:
  assumes dvs: "distinct vs" and r: "topological_sort vs vp = Inr order"
  shows "smallest_ready_first vs (parents_of vp) order"
proof -
  from r have "set vs \<subseteq> dom vp"
    by (auto simp: topological_sort_def split: sum.splits dest: build_graph_dom)
  from kahn_start [OF dvs this] obtain ch deg q0 where
    b: "build_graph vs vp (fold (\<lambda>v. AList.update v []) vs [], fold (\<lambda>v. AList.update v 0) vs [])
             = Inr (ch, deg)"
    and z: "zero_in_degree vs deg = Inr q0"
    and ok: "children_ok vs (parents_of vp) ch"
    and inv: "kahn_inv vs (parents_of vp) (q0, [], deg)"
    by blast
  from r b z have k: "kahn_loop ch (q0, [], deg) = Inr order"
    by (auto simp: topological_sort_def split: sum.splits if_splits)
  have "smallest_ready_first vs (parents_of vp) (fst (snd (q0, [], deg)))"
    by (simp add: smallest_ready_first_def)
  from kahn_loop_least [OF ok inv this k] show ?thesis .
qed

lemma topological_sort_example_cycle: "topological_sort [''X1'', ''X2''] [''X1'' \<mapsto> [''X2''], ''X2'' \<mapsto> [''X1'']]
   = Inl (ValueError ''Graph is not a DAG!'')"
  by code_simp

lemma topological_sort_example_dag: "topological_sort [''X1'', ''X2'', ''X3''] [''X1'' \<mapsto> [''X3''], ''X2'' \<mapsto> [], ''X3'' \<mapsto> [''X2'']]
   = Inr [''X2'', ''X3'', ''X1'']"
  by code_simp

lemma topological_sort_example_ties: "topological_sort [''X1'', ''X2'', ''X3'', ''X10''] [''X1'' \<mapsto> [''X10''], ''X2'' \<mapsto> [], ''X3'' \<mapsto> [''X10''], ''X10'' \<mapsto> []]
   = Inr [''X2'', ''X10'', ''X1'', ''X3'']"
  by code_simp

section \<open>Claims about the topological sort\<close>

text \<open>
  C5. On a list of distinct variable names with valid numeric suffixes and a parent map
  that gives each of them a parent list among them: when the graph has a cycle,
  \<open>topological_sort\<close> raises \<open>ValueError("Graph is not a DAG!")\<close>; when it has none,
  it returns an order; and every order it returns is a permutation of all the variables
  (never a partial or truncated one) of an acyclic graph.
\<close>

theorem topological_sort_cycle:
  assumes "distinct vs"
    and "\<forall>v \<in> set vs. \<exists>ps. vp v = Some ps \<and> set ps \<subseteq> set vs"
    and "\<forall>v \<in> set vs. \<exists>k. name_index v = Inr k"
  shows "(\<not> acyclic (parent_edges vs vp) \<longrightarrow>
            topological_sort vs vp = Inl (ValueError ''Graph is not a DAG!''))
       \<and> (acyclic (parent_edges vs vp) \<longrightarrow> (\<exists>order. topological_sort vs vp = Inr order))
       \<and> (\<forall>order. topological_sort vs vp = Inr order \<longrightarrow>
            mset order = mset vs \<and> acyclic (parent_edges vs vp))"
proof (intro conjI allI impI)
  assume "\<not> acyclic (parent_edges vs vp)"
  with topological_sort_complete [OF assms]
  show "topological_sort vs vp = Inl (ValueError ''Graph is not a DAG!'')" by simp
next
  assume "acyclic (parent_edges vs vp)"
  with topological_sort_complete [OF assms]
  show "\<exists>order. topological_sort vs vp = Inr order" by simp
next
  fix order assume r: "topological_sort vs vp = Inr order"
  from topological_sort_sound [OF assms(1) r]
  show "mset order = mset vs" 
    using assms(1) by (metis set_eq_iff_mset_eq_distinct)
  from topological_sort_sound [OF assms(1) r]
  show "acyclic (parent_edges vs vp)" by simp
qed

theorem topological_sort_cycle_witness:
  "topological_sort [''X1'', ''X2''] [''X1'' \<mapsto> [''X2''], ''X2'' \<mapsto> [''X1'']]
     = Inl (ValueError ''Graph is not a DAG!'')
   \<and> (\<exists>order. topological_sort [''X1'', ''X2''] [''X1'' \<mapsto> [], ''X2'' \<mapsto> [''X1'']] = Inr order)"
proof -
  let ?vs = "[''X1'', ''X2'']"
  let ?cyc = "[''X1'' \<mapsto> [''X2''], ''X2'' \<mapsto> [''X1'']]"
  let ?dag = "[''X1'' \<mapsto> [], ''X2'' \<mapsto> [''X1'']]"
  have d: "distinct ?vs" by simp
  have k: "\<forall>v \<in> set ?vs. \<exists>k. name_index v = Inr k"
    by (simp add: name_index_def py_int_def c_strip_def is_c_space_def is_digit_def)
  have c1: "\<forall>v \<in> set ?vs. \<exists>ps. ?cyc v = Some ps \<and> set ps \<subseteq> set ?vs" by simp
  have c2: "\<forall>v \<in> set ?vs. \<exists>ps. ?dag v = Some ps \<and> set ps \<subseteq> set ?vs" by simp
  have "(''X1'', ''X2'') \<in> parent_edges ?vs ?cyc" and "(''X2'', ''X1'') \<in> parent_edges ?vs ?cyc"
    by (simp_all add: parent_edges_def parents_of_def)
  then have "(''X1'', ''X1'') \<in> (parent_edges ?vs ?cyc)\<^sup>+" by (rule trancl_into_trancl2 [OF _ r_into_trancl])
  then have n: "\<not> acyclic (parent_edges ?vs ?cyc)" by (auto simp: acyclic_def)
  have "parent_edges ?vs ?dag = {(''X1'', ''X2'')}"
    by (auto simp: parent_edges_def parents_of_def split: if_splits)
  then have a: "acyclic (parent_edges ?vs ?dag)"
    by (simp add: acyclic_insert wf_acyclic)
  from topological_sort_cycle [OF d c1 k] n topological_sort_cycle [OF d c2 k] a
  show ?thesis by blast
qed

section \<open>Renaming after the sort\<close>

lemma map_of_fold_update_zip:
  "distinct ks \<Longrightarrow> length ks = length is \<Longrightarrow>
     map_of (fold (\<lambda>(i, old). AList.update old (g i)) (zip is ks) d) k
       = (case map_of (zip ks (map g is)) k of None \<Rightarrow> map_of d k | Some v \<Rightarrow> Some v)"
proof (induction ks arbitrary: "is" d)
  case Nil
  then show ?case by simp
next
  case (Cons a ks)
  then obtain i is' where i: "is = i # is'" by (cases "is") auto
  with Cons.prems have "distinct ks" "length ks = length is'" "a \<notin> set ks" by auto
  with Cons.IH [of is' "AList.update a (g i) d"] show ?case
    unfolding i
    by (auto simp: update_conv' split: option.splits dest!: map_of_SomeD set_zip_leftD)
qed

lemma make_renaming_nth:
  assumes "distinct s" and "i < length s"
  shows "map_of (make_renaming s) (s ! i) = Some (placeholder (i + 1))"
proof -
  have "map_of (zip s (map (\<lambda>i. placeholder (i + 1)) [0..<length s])) (s ! i)
        = Some (map (\<lambda>i. placeholder (i + 1)) [0..<length s] ! i)"
    using assms by (intro map_of_zip_nth) auto
  then have z: "map_of (zip s (map (\<lambda>i. placeholder (i + 1)) [0..<length s])) (s ! i)
        = Some (placeholder (i + 1))"
    using assms(2) by simp
  show ?thesis
    unfolding make_renaming_def enumerate_eq_zip
    using map_of_fold_update_zip [OF assms(1), of "[0..<length s]" "\<lambda>i. placeholder (i + 1)" "[]" "s ! i"] z
    by simp
qed

lemma update_fresh: "k \<notin> fst ` set d \<Longrightarrow> AList.update k v d = d @ [(k, v)]"
  by (induction d) auto

lemma fold_update_fresh:
  "distinct (map f xs) \<Longrightarrow> f ` set xs \<inter> fst ` set d = {} \<Longrightarrow>
     fold (\<lambda>i. AList.update (f i) (g i)) xs d = d @ map (\<lambda>i. (f i, g i)) xs"
proof (induction xs arbitrary: d)
  case Nil
  then show ?case by simp
next
  case (Cons x xs)
  from Cons.prems have fresh: "f x \<notin> fst ` set d" by auto
  have "f ` set xs \<inter> fst ` set (d @ [(f x, g x)]) = {}"
    using Cons.prems by auto
  with Cons.IH [of "d @ [(f x, g x)]"] Cons.prems(1) show ?case
    by (simp add: update_fresh [OF fresh])
qed

lemma rename_all_result:
  "set ps \<subseteq> dom (map_of ren) \<Longrightarrow> rename_all ren ps = Inr (map (\<lambda>p. the (map_of ren p)) ps)"
  by (induction ps) auto

lemma rename_parents_result:
  assumes "set olds \<subseteq> dom (map_of ren)"
    and "\<forall>old \<in> set olds. \<exists>ps. vp old = Some ps \<and> set ps \<subseteq> dom (map_of ren)"
  shows "\<exists>np. rename_parents ren vp olds acc = Inr np
      \<and> fst ` set np = fst ` set acc \<union> (\<lambda>v. the (map_of ren v)) ` set olds
      \<and> (\<forall>c ps. map_of np c = Some ps \<longrightarrow>
            map_of acc c = Some ps
          \<or> (\<exists>old \<in> set olds. c = the (map_of ren old)
                \<and> ps = map (\<lambda>p. the (map_of ren p)) (parents_of vp old)))"
  using assms
proof (induction olds arbitrary: acc)
  case Nil
  then show ?case by simp
next
  case (Cons old olds)
  from Cons.prems obtain new_var ps where nv: "map_of ren old = Some new_var"
    and ps: "vp old = Some ps" and sub: "set ps \<subseteq> dom (map_of ren)"
    by auto
  let ?qs = "map (\<lambda>p. the (map_of ren p)) ps"
  let ?acc = "AList.update new_var ?qs acc"
  from Cons.prems have "set olds \<subseteq> dom (map_of ren)"
    and "\<forall>old \<in> set olds. \<exists>ps. vp old = Some ps \<and> set ps \<subseteq> dom (map_of ren)"
    by auto
  from Cons.IH [OF this, of ?acc] obtain np where
    r: "rename_parents ren vp olds ?acc = Inr np"
    and k: "fst ` set np = fst ` set ?acc \<union> (\<lambda>v. the (map_of ren v)) ` set olds"
    and e: "\<forall>c qs. map_of np c = Some qs \<longrightarrow>
            map_of ?acc c = Some qs
          \<or> (\<exists>old \<in> set olds. c = the (map_of ren old)
                \<and> qs = map (\<lambda>p. the (map_of ren p)) (parents_of vp old))"
    by blast
  have "rename_parents ren vp (old # olds) acc = Inr np"
    using nv ps r by (simp add: rename_all_result [OF sub])
  moreover have "fst ` set np = fst ` set acc \<union> (\<lambda>v. the (map_of ren v)) ` set (old # olds)"
    using k nv by (auto simp: dom_update)
  moreover have "\<forall>c qs. map_of np c = Some qs \<longrightarrow>
            map_of acc c = Some qs
          \<or> (\<exists>o' \<in> set (old # olds). c = the (map_of ren o')
                \<and> qs = map (\<lambda>p. the (map_of ren p)) (parents_of vp o'))"
  proof (intro allI impI)
    fix c qs assume "map_of np c = Some qs"
    with e have "map_of ?acc c = Some qs
          \<or> (\<exists>old \<in> set olds. c = the (map_of ren old)
                \<and> qs = map (\<lambda>p. the (map_of ren p)) (parents_of vp old))" by blast
    then show "map_of acc c = Some qs
          \<or> (\<exists>o' \<in> set (old # olds). c = the (map_of ren o')
                \<and> qs = map (\<lambda>p. the (map_of ren p)) (parents_of vp o'))"
      using nv ps by (auto simp: update_conv' parents_of_def split: if_splits)
  qed
  ultimately show ?case by blast
qed

lemma reassign_names_example: "reassign_names [''X2'', ''X3'', ''X1''] [''X1'' \<mapsto> [''X3''], ''X2'' \<mapsto> [], ''X3'' \<mapsto> [''X2'']]
  = Inr ([''X1'', ''X2'', ''X3''], [(''X1'', []), (''X2'', [''X1'']), (''X3'', [''X2''])],
         [(''X2'', ''X1''), (''X3'', ''X2''), (''X1'', ''X3'')])"
  by code_simp

lemma make_renaming_eq:
  assumes "distinct s"
  shows "make_renaming s = zip s (map (\<lambda>i. placeholder (i + 1)) [0..<length s])"
proof -
  have "make_renaming s
      = fold (\<lambda>x. AList.update (snd x) (placeholder (fst x + 1))) (enumerate 0 s) []"
    by (simp add: make_renaming_def split_def)
  also have "\<dots> = [] @ map (\<lambda>x. (snd x, placeholder (fst x + 1))) (enumerate 0 s)"
    using assms by (intro fold_update_fresh) (simp_all add: enumerate_eq_zip)
  also have "\<dots> = zip s (map (\<lambda>i. placeholder (i + 1)) [0..<length s])"
    by (rule nth_equalityI) (simp_all add: nth_enumerate_eq)
  finally show ?thesis .
qed

lemma rename_parents_eq:
  assumes "set olds \<subseteq> dom (map_of ren)"
    and "\<forall>old \<in> set olds. \<exists>ps. vp old = Some ps \<and> set ps \<subseteq> dom (map_of ren)"
    and "distinct (map (\<lambda>v. the (map_of ren v)) olds)"
    and "(\<lambda>v. the (map_of ren v)) ` set olds \<inter> fst ` set acc = {}"
  shows "rename_parents ren vp olds acc
           = Inr (acc @ map (\<lambda>old. (the (map_of ren old),
                                     map (\<lambda>p. the (map_of ren p)) (parents_of vp old))) olds)"
  using assms
proof (induction olds arbitrary: acc)
  case Nil
  then show ?case by simp
next
  case (Cons old olds)
  from Cons.prems obtain new_var ps where nv: "map_of ren old = Some new_var"
    and ps: "vp old = Some ps" and sub: "set ps \<subseteq> dom (map_of ren)"
    by auto
  let ?R = "\<lambda>v. the (map_of ren v)"
  let ?qs = "map ?R ps"
  from Cons.prems(4) nv have fresh: "new_var \<notin> fst ` set acc" by auto
  let ?acc = "acc @ [(new_var, ?qs)]"
  have u: "AList.update new_var ?qs acc = ?acc" using fresh by (rule update_fresh)
  from Cons.prems have 1: "set olds \<subseteq> dom (map_of ren)"
    and 2: "\<forall>old \<in> set olds. \<exists>ps. vp old = Some ps \<and> set ps \<subseteq> dom (map_of ren)"
    and 3: "distinct (map ?R olds)"
    by auto
  have 4: "?R ` set olds \<inter> fst ` set ?acc = {}"
    using Cons.prems(3,4) nv by auto
  from Cons.IH [OF 1 2 3 4] have
    "rename_parents ren vp olds ?acc
       = Inr (?acc @ map (\<lambda>old. (?R old, map ?R (parents_of vp old))) olds)" .
  then show ?case
    using nv ps u by (simp add: rename_all_result [OF sub] parents_of_def)
qed


text \<open>
  C4. For distinct variable names with valid numeric suffixes and an acyclic parent map
  whose parent lists stay among them: the topological sort returns an order, which is
  a permutation of the variables with every parent before its child and, at every
  position, the variable of least numeric suffix among those whose parents are all
  placed (Kahn's algorithm, ties broken by ascending numeric suffix). Renaming that
  order gives the \<open>i\<close>-th variable (from 0) the name \<open>X(i+1)\<close>: \<open>renaming\<close> pairs the
  order with these names, and the renamed parent map has, in this order, one entry for
  every variable, under its new name, holding its original parent list rewritten
  through the renaming. So its keys are exactly the new names, and in it the numeric
  index of every parent is strictly less than the numeric index of its child.
\<close>

theorem rename_parent_before_child:
  assumes "distinct vs"
    and "\<forall>v \<in> set vs. \<exists>ps. vp v = Some ps \<and> set ps \<subseteq> set vs"
    and "\<forall>v \<in> set vs. \<exists>k. name_index v = Inr k"
    and "acyclic (parent_edges vs vp)"
  shows "\<exists>order names new_parents renaming.
           topological_sort vs vp = Inr order
         \<and> reassign_names order vp = Inr (names, new_parents, renaming)
         \<and> names = map (\<lambda>i. placeholder (i + 1)) [0..<length vs]
         \<and> fst ` set new_parents = set names
         \<and> (\<forall>c ps p. map_of new_parents c = Some ps \<longrightarrow> p \<in> set ps \<longrightarrow>
               (\<exists>i j. name_index p = Inr i \<and> name_index c = Inr j \<and> i < j))
         \<and> mset order = mset vs
         \<and> topo_ordered (parents_of vp) order
         \<and> smallest_ready_first vs (parents_of vp) order
         \<and> renaming = zip order names
         \<and> new_parents = map (\<lambda>old. (the (map_of renaming old),
                                       map (\<lambda>p. the (map_of renaming p)) (parents_of vp old))) order"
proof -
  from topological_sort_complete [OF assms(1-3)] assms(4) obtain order where
    ts: "topological_sort vs vp = Inr order" by auto
  from topological_sort_sound [OF assms(1) ts] have
    so: "set order = set vs" and d: "distinct order"
    and topo: "topo_ordered (parents_of vp) order"
    by auto
  from so d assms(1) have len: "length order = length vs"
    by (metis distinct_card)
  from so d assms(1) have perm: "mset order = mset vs"
    by (metis set_eq_iff_mset_eq_distinct)
  from topological_sort_least [OF assms(1) ts]
  have least: "smallest_ready_first vs (parents_of vp) order" .
  let ?ren = "make_renaming order"
  let ?R = "\<lambda>v. the (map_of ?ren v)"
  have R: "\<And>i. i < length order \<Longrightarrow> map_of ?ren (order ! i) = Some (placeholder (i + 1))"
    using d by (rule make_renaming_nth)
  have dom: "set order \<subseteq> dom (map_of ?ren)"
    using R by (auto simp: in_set_conv_nth)
  have cl: "\<forall>old \<in> set order. \<exists>ps. vp old = Some ps \<and> set ps \<subseteq> dom (map_of ?ren)"
    using assms(2) so dom by fastforce
  let ?names = "map ?R order"
  have names: "?names = map (\<lambda>i. placeholder (i + 1)) [0..<length vs]"
  proof (rule nth_equalityI)
    show "length ?names = length (map (\<lambda>i. placeholder (i + 1)) [0..<length vs])"
      using len by simp
    fix i assume "i < length ?names"
    then show "?names ! i = map (\<lambda>i. placeholder (i + 1)) [0..<length vs] ! i"
      using R [of i] len by simp
  qed
  have "distinct (map (\<lambda>i. placeholder (i + 1)) [0..<length vs])"
    by (rule distinct_map [THEN iffD2]) (auto simp: inj_on_def dest: placeholder_inj)
  with names have dn: "distinct ?names" by simp
  let ?np = "map (\<lambda>old. (?R old, map ?R (parents_of vp old))) order"
  from rename_parents_eq [OF dom cl dn, of "[]"]
  have rp: "rename_parents ?ren vp order [] = Inr ?np" by simp
  have rn: "reassign_names order vp = Inr (?names, ?np, ?ren)"
    using rp rename_all_result [OF dom] by (simp add: reassign_names_def Let_def)
  have ren: "?ren = zip order ?names"
    using make_renaming_eq [OF d] names len by simp
  have keys: "fst ` set ?np = set ?names" by (simp add: image_image)
  have mp: "\<And>i. i < length order \<Longrightarrow>
      map_of ?np (placeholder (i + 1)) = Some (map ?R (parents_of vp (order ! i)))"
  proof -
    fix i assume i: "i < length order"
    have "?np = zip ?names (map (\<lambda>old. map ?R (parents_of vp old)) order)"
      by (simp add: zip_map_map zip_same_conv_map)
    moreover have "map_of (zip ?names (map (\<lambda>old. map ?R (parents_of vp old)) order)) (?names ! i)
        = Some (map (\<lambda>old. map ?R (parents_of vp old)) order ! i)"
      using dn i by (intro map_of_zip_nth) simp_all
    ultimately show "map_of ?np (placeholder (i + 1)) = Some (map ?R (parents_of vp (order ! i)))"
      using i R [OF i] by simp
  qed
  have idx: "\<forall>c ps p. map_of ?np c = Some ps \<longrightarrow> p \<in> set ps \<longrightarrow>
               (\<exists>i j. name_index p = Inr i \<and> name_index c = Inr j \<and> i < j)"
  proof (intro allI impI)
    fix c ps p assume c: "map_of ?np c = Some ps" and p: "p \<in> set ps"
    from c have "c \<in> dom (map_of ?np)" by (rule domI)
    then have "c \<in> fst ` set ?np" by (simp only: dom_map_of_conv_image_fst)
    with keys have "c \<in> set ?names" by simp
    then obtain i where i: "i < length order" "c = ?R (order ! i)"
      by (auto simp: in_set_conv_nth)
    with R [OF i(1)] have ci: "c = placeholder (i + 1)" by simp
    with mp [OF i(1)] c have ps: "ps = map ?R (parents_of vp (order ! i))" by simp
    from p ps obtain q where q: "q \<in> set (parents_of vp (order ! i))" "p = ?R q" by auto
    with topo i(1) have "q \<in> set (take i order)" by (auto simp: topo_ordered_def)
    then obtain j where j: "j < i" "order ! j = q"
      using i(1) by (auto simp: in_set_conv_nth)
    have "p = placeholder (j + 1)" using R [of j] j i(1) q(2) by simp
    with ci show "\<exists>i j. name_index p = Inr i \<and> name_index c = Inr j \<and> i < j"
      using j(1) by (simp add: name_index_placeholder)
  qed
  show ?thesis
  proof (intro exI conjI)
    show "topological_sort vs vp = Inr order" by (fact ts)
    show "reassign_names order vp = Inr (?names, ?np, ?ren)" by (fact rn)
    show "?names = map (\<lambda>i. placeholder (i + 1)) [0..<length vs]" by (fact names)
    show "fst ` set ?np = set ?names" by (fact keys)
    show "\<forall>c ps p. map_of ?np c = Some ps \<longrightarrow> p \<in> set ps \<longrightarrow>
               (\<exists>i j. name_index p = Inr i \<and> name_index c = Inr j \<and> i < j)" by (fact idx)
    show "mset order = mset vs" by (fact perm)
    show "topo_ordered (parents_of vp) order" by (fact topo)
    show "smallest_ready_first vs (parents_of vp) order" by (fact least)
    show "?ren = zip order ?names" by (fact ren)
    show "?np = map (\<lambda>old. (?R old, map ?R (parents_of vp old))) order" by (rule refl)
  qed
qed

theorem rename_parent_before_child_witness:
  "topological_sort [''X10'', ''X2'', ''X3'', ''X7'']
        [''X10'' \<mapsto> [], ''X2'' \<mapsto> [], ''X3'' \<mapsto> [''X7''], ''X7'' \<mapsto> [''X10'', ''X2'']]
     = Inr [''X2'', ''X10'', ''X7'', ''X3'']
   \<and> reassign_names [''X2'', ''X10'', ''X7'', ''X3'']
        [''X10'' \<mapsto> [], ''X2'' \<mapsto> [], ''X3'' \<mapsto> [''X7''], ''X7'' \<mapsto> [''X10'', ''X2'']]
     = Inr ([''X1'', ''X2'', ''X3'', ''X4''],
            [(''X1'', []), (''X2'', []), (''X3'', [''X2'', ''X1'']), (''X4'', [''X3''])],
            [(''X2'', ''X1''), (''X10'', ''X2''), (''X7'', ''X3''), (''X3'', ''X4'')])"
proof -
  let ?vs = "[''X10'', ''X2'', ''X3'', ''X7'']"
  let ?vp = "[''X10'' \<mapsto> [], ''X2'' \<mapsto> [], ''X3'' \<mapsto> [''X7''], ''X7'' \<mapsto> [''X10'', ''X2'']]"
  let ?order = "[''X2'', ''X10'', ''X7'', ''X3'']"
  have d: "distinct ?vs" by simp
  have c: "\<forall>v \<in> set ?vs. \<exists>ps. ?vp v = Some ps \<and> set ps \<subseteq> set ?vs" by simp
  have k: "\<forall>v \<in> set ?vs. \<exists>k. name_index v = Inr k"
    by (simp add: name_index_def py_int_def c_strip_def is_c_space_def is_digit_def)
  have e: "topological_sort ?vs ?vp = Inr ?order"
    by code_simp
  from topological_sort_sound [OF d e] have a: "acyclic (parent_edges ?vs ?vp)" by simp
  have n: "map (\<lambda>i. placeholder (i + 1)) [0..<length ?vs] = [''X1'', ''X2'', ''X3'', ''X4'']"
    by code_simp
  from rename_parent_before_child [OF d c k a] obtain order names new_parents renaming where
    1: "topological_sort ?vs ?vp = Inr order"
    and 2: "reassign_names order ?vp = Inr (names, new_parents, renaming)"
    and 3: "names = map (\<lambda>i. placeholder (i + 1)) [0..<length ?vs]"
    and 4: "renaming = zip order names"
    and 5: "new_parents = map (\<lambda>old. (the (map_of renaming old),
                                       map (\<lambda>p. the (map_of renaming p)) (parents_of ?vp old))) order"
    by blast
  from 1 e have o: "order = ?order" by simp
  from 3 n have nm: "names = [''X1'', ''X2'', ''X3'', ''X4'']" by simp
  from 4 o nm have r: "renaming = [(''X2'', ''X1''), (''X10'', ''X2''), (''X7'', ''X3''), (''X3'', ''X4'')]"
    by simp
  from 5 o r have np: "new_parents = [(''X1'', []), (''X2'', []), (''X3'', [''X2'', ''X1'']), (''X4'', [''X3''])]"
    by (simp add: parents_of_def)
  from e 2 o nm r np show ?thesis by simp
qed

section \<open>Shape of the generated topologies\<close>


lemma nth_var_names_of: "i < n \<Longrightarrow> var_names_of n ! i = placeholder (i + 1)"
  by (simp add: var_names_of_def del: upt_Suc)


lemma set_var_names_of: "set (var_names_of n) = placeholder ` {1..n}"
  by (auto simp: var_names_of_def simp del: upt_Suc)

lemma var_name_ok: "i < n \<Longrightarrow> var_name n i = Inr (placeholder (i + 1))"
  by (simp add: var_name_def nth_var_names_of)

































































section \<open>Regular expressions of the parser\<close>

text \<open>
  The parser uses five regular expressions, all built from literals, the classes \<open>\s\<close>,
  \<open>\w\<close> and \<open>.\<close> under \<open>+\<close>, \<open>*\<close> or \<open>*?\<close>, capture groups and one optional group.
  \<open>Many cls mn greedy\<close> is a repetition of a class with at least \<open>mn\<close> characters,
  greedy or lazy. \<open>ms\<close> and \<open>mseq\<close> list all ways to match at the start of a string, in
  the order in which Python's backtracking matcher tries them, each with the rest of the
  string and the groups captured so far; \<open>re.match\<close> takes the first, \<open>re.search\<close>
  tries every start position from the left. On ASCII text, \<open>\w\<close> is a letter, a digit or
  an underscore.
\<close>

definition is_word :: "char \<Rightarrow> bool" where
  "is_word c \<longleftrightarrow>
     c \<in> set ''abcdefghijklmnopqrstuvwxyzABCDEFGHIJKLMNOPQRSTUVWXYZ0123456789_''"

datatype cclass = Space | Word | AnyChar

fun in_class :: "cclass \<Rightarrow> char \<Rightarrow> bool" where
  "in_class Space c = is_space c"
| "in_class Word c = is_word c"
| "in_class AnyChar c = (c \<noteq> CHR 0x0A)"

datatype regex =
    Lit string
  | Many cclass nat bool
  | Group nat "regex list"
  | Opt "regex list"

type_synonym captures = "nat \<rightharpoonup> string"

fun ms :: "regex \<Rightarrow> string \<times> captures \<Rightarrow> (string \<times> captures) list"
  and mseq :: "regex list \<Rightarrow> string \<times> captures \<Rightarrow> (string \<times> captures) list" where
  "ms (Lit l) (s, caps) = (if take (length l) s = l then [(drop (length l) s, caps)] else [])"
| "ms (Many cls mn greedy) (s, caps) =
     (let n = length (takeWhile (in_class cls) s);
          ks = [mn..<n + 1]
      in map (\<lambda>k. (drop k s, caps)) (if greedy then rev ks else ks))"
| "ms (Group i rs) (s, caps) =
     map (\<lambda>(s', caps'). (s', caps'(i \<mapsto> take (length s - length s') s))) (mseq rs (s, caps))"
| "ms (Opt rs) st = mseq rs st @ [st]"
| "mseq [] st = [st]"
| "mseq (r # rs) st = concat (map (mseq rs) (ms r st))"

definition re_match :: "regex list \<Rightarrow> string \<Rightarrow> captures option" where
  "re_match pattern s =
     (case mseq pattern (s, Map.empty) of [] \<Rightarrow> None | (s', caps) # _ \<Rightarrow> Some caps)"

fun re_search :: "regex list \<Rightarrow> string \<Rightarrow> captures option" where
  "re_search pattern [] = re_match pattern []"
| "re_search pattern (c # s) =
     (case re_match pattern (c # s) of
        Some caps \<Rightarrow> Some caps
      | None \<Rightarrow> re_search pattern s)"

definition the_group :: "captures \<Rightarrow> nat \<Rightarrow> string" where
  "the_group caps i = (case caps i of None \<Rightarrow> [] | Some g \<Rightarrow> g)"

definition variable_re :: "regex list" where
  "variable_re =
     [Lit ''variable'', Many Space 1 True, Group 1 [Many Word 1 True], Many Space 0 True, Lit ''{'']"

definition domain_re :: "regex list" where
  "domain_re =
     [Lit ''{'', Many Space 0 True, Group 1 [Many AnyChar 0 False], Many Space 0 True, Lit ''}'']"

definition probability_re :: "regex list" where
  "probability_re =
     [Lit ''probability'', Many Space 0 True, Lit ''('', Many Space 0 True,
      Group 1 [Many Word 1 True],
      Opt [Group 2 [Many Space 0 True, Lit ''|'', Many Space 0 True,
                    Group 3 [Many AnyChar 0 False]]],
      Many Space 0 True, Lit '')'', Many Space 0 True, Lit ''{'']"

definition table_re :: "regex list" where
  "table_re = [Lit ''table'', Many Space 1 True, Group 1 [Many AnyChar 0 False], Lit '';'']"

definition entry_re :: "regex list" where
  "entry_re =
     [Lit ''('', Many Space 0 True, Group 1 [Many AnyChar 0 False], Many Space 0 True,
      Lit '')'', Many Space 1 True, Group 2 [Many AnyChar 0 False], Lit '';'']"

section \<open>The grammar parser\<close>

text \<open>
  \<open>str.splitlines\<close> (on ASCII: line feed, vertical tab, form feed, carriage return, also
  followed by a line feed, and the separators \<open>0x1C\<close> to \<open>0x1E\<close>; no empty last line),
  \<open>str.split(",")\<close>, \<open>str.startswith\<close> and \<open>str.join\<close>.
\<close>

definition is_linebreak :: "char \<Rightarrow> bool" where
  "is_linebreak c \<longleftrightarrow> c \<in> set [CHR 0x0A, CHR 0x0B, CHR 0x0C, CHR 0x0D, CHR 0x1C, CHR 0x1D, CHR 0x1E]"

fun splitlines_from :: "string \<Rightarrow> string \<Rightarrow> string list" where
  "splitlines_from cur [] = (if cur = [] then [] else [cur])"
| "splitlines_from cur [c] = (if is_linebreak c then [cur] else [cur @ [c]])"
| "splitlines_from cur (c # d # s) =
     (if c = CHR 0x0D \<and> d = CHR 0x0A then cur # splitlines_from [] s
      else if is_linebreak c then cur # splitlines_from [] (d # s)
      else splitlines_from (cur @ [c]) (d # s))"

definition splitlines :: "string \<Rightarrow> string list" where
  "splitlines text = splitlines_from [] text"

fun split_on :: "char \<Rightarrow> string \<Rightarrow> string list" where
  "split_on sep [] = [[]]"
| "split_on sep (c # s) =
     (if c = sep then [] # split_on sep s
      else (case split_on sep s of [] \<Rightarrow> [[c]] | h # t \<Rightarrow> (c # h) # t))"

definition startswith :: "string \<Rightarrow> string \<Rightarrow> bool" where
  "startswith s p \<longleftrightarrow> take (length p) s = p"

fun join :: "string \<Rightarrow> string list \<Rightarrow> string" where
  "join sep [] = []"
| "join sep [x] = x"
| "join sep (x # y # xs) = x @ sep @ join sep (y # xs)"

text \<open>
  \<open>float(s)\<close>: white space around the literal is dropped; a sign may lead; the rest is
  \<open>inf\<close>, \<open>infinity\<close> or \<open>nan\<close> in any case, or a decimal literal (digits with single
  underscores between them, an optional fraction, an optional exponent); anything else
  raises \<open>ValueError\<close>. The model keeps the literal and does not compute the binary64
  value it denotes.
\<close>

datatype pyfloat = PyFloat string

definition to_lower :: "char \<Rightarrow> char" where
  "to_lower c =
     (case map_of (zip ''ABCDEFGHIJKLMNOPQRSTUVWXYZ'' ''abcdefghijklmnopqrstuvwxyz'') c of
        None \<Rightarrow> c | Some l \<Rightarrow> l)"

fun more_digits :: "string \<Rightarrow> string" where
  "more_digits [] = []"
| "more_digits [c] = (if is_digit c then [] else [c])"
| "more_digits (c # d # r) =
     (if is_digit c then more_digits (d # r)
      else if c = CHR ''_'' \<and> is_digit d then more_digits (d # r)
      else c # d # r)"

definition digit_part :: "string \<Rightarrow> string option" where
  "digit_part s = (case s of [] \<Rightarrow> None | c # r \<Rightarrow> if is_digit c then Some (more_digits r) else None)"

definition exponent_ok :: "string \<Rightarrow> bool" where
  "exponent_ok r =
     (case r of
        [] \<Rightarrow> True
      | e # r1 \<Rightarrow>
          (e = CHR ''e'' \<or> e = CHR ''E'')
          \<and> (case digit_part (if r1 \<noteq> [] \<and> (hd r1 = CHR ''+'' \<or> hd r1 = CHR ''-'') then tl r1 else r1) of
                None \<Rightarrow> False
              | Some r3 \<Rightarrow> r3 = []))"

definition float_body_ok :: "string \<Rightarrow> bool" where
  "float_body_ok s =
     (case digit_part s of
        Some r \<Rightarrow>
          (if r \<noteq> [] \<and> hd r = CHR ''.''
           then (case digit_part (tl r) of Some r2 \<Rightarrow> exponent_ok r2 | None \<Rightarrow> exponent_ok (tl r))
           else exponent_ok r)
      | None \<Rightarrow>
          (if s \<noteq> [] \<and> hd s = CHR ''.''
           then (case digit_part (tl s) of Some r2 \<Rightarrow> exponent_ok r2 | None \<Rightarrow> False)
           else False))"

definition py_float :: "string \<Rightarrow> error + pyfloat" where
  "py_float s =
     (let t = c_strip s;
          body = (if t \<noteq> [] \<and> (hd t = CHR ''-'' \<or> hd t = CHR ''+'') then tl t else t)
      in if map to_lower body \<in> set [''inf'', ''infinity'', ''nan''] \<or> float_body_ok body
         then Inr (PyFloat t)
         else Inl (ValueError ''float''))"

fun floats :: "string list \<Rightarrow> error + pyfloat list" where
  "floats [] = Inr []"
| "floats (p # ps) =
     (case py_float (strip p) of
        Inl e \<Rightarrow> Inl e
      | Inr x \<Rightarrow> (case floats ps of Inl e \<Rightarrow> Inl e | Inr xs \<Rightarrow> Inr (x # xs)))"

text \<open>
  An item of a \<open>table\<close> list is a float (from a \<open>table\<close> line) or a pair of an assignment
  tuple and a list of floats (from a conditional row). A CPD is the dictionary with the
  keys \<open>child\<close>, \<open>parents\<close> and \<open>table\<close>.
\<close>

datatype pyval = Num pyfloat | Row "string list" "pyfloat list"

record cpd =
  cpd_child :: string
  cpd_parents :: "string list"
  cpd_table :: "pyval list"

definition cleaned_lines :: "string \<Rightarrow> string list" where
  "cleaned_lines file_contents =
     filter (\<lambda>line. line \<noteq> [])
       (map (\<lambda>line. strip (takeWhile (\<lambda>c. c \<noteq> CHR ''#'') line)) (splitlines file_contents))"

text \<open>
  The inner \<open>while\<close> loops of \<open>parse_bif\<close>. The index \<open>i\<close> only moves forward, so the
  model passes the lines from \<open>i\<close> on; each scan returns the lines from the closing
  \<open>}\<close> on (none when the block is not closed) and the caller drops one more line.
\<close>

fun scan_variable :: "string list \<Rightarrow> string list \<Rightarrow> string list \<times> string list" where
  "scan_variable [] domain = ([], domain)"
| "scan_variable (l # ls) domain =
     (if l = ''}'' then (l # ls, domain)
      else (case re_search domain_re l of
              Some m2 \<Rightarrow> scan_variable ls (map strip (split_on CHR '','' (the_group m2 1)))
            | None \<Rightarrow> scan_variable ls domain))"

fun scan_probability :: "string list \<Rightarrow> pyval list \<Rightarrow> error + string list \<times> pyval list" where
  "scan_probability [] table = Inr ([], table)"
| "scan_probability (line_inside # ls) table =
     (if line_inside = ''}'' then Inr (line_inside # ls, table)
      else if startswith line_inside ''table'' then
        (case re_search table_re line_inside of
           Some m_table \<Rightarrow>
             (case floats (split_on CHR '','' (the_group m_table 1)) of
                Inl e \<Rightarrow> Inl e
              | Inr probs \<Rightarrow> scan_probability ls (map Num probs))
         | None \<Rightarrow> scan_probability ls table)
      else
        (case re_match entry_re line_inside of
           Some m_entry \<Rightarrow>
             (case floats (split_on CHR '','' (the_group m_entry 2)) of
                Inl e \<Rightarrow> Inl e
              | Inr probs \<Rightarrow>
                  scan_probability ls
                    (table @ [Row (map strip (split_on CHR '','' (the_group m_entry 1))) probs]))
         | None \<Rightarrow> scan_probability ls table))"

lemma scan_variable_length: "length (fst (scan_variable ls d)) \<le> length ls"
  by (induction ls arbitrary: d) (auto split: option.splits intro: le_SucI)

lemma scan_probability_length:
  "scan_probability ls t = Inr (ls', t') \<Longrightarrow> length ls' \<le> length ls"
  by (induction ls arbitrary: t) (auto split: option.splits sum.splits if_splits intro: le_SucI)

lemma scan_variable_drop: "length (fst (scan_variable ls d)) - Suc 0 < Suc (length ls)"
  using scan_variable_length [of ls d] by simp

lemma scan_probability_drop:
  "scan_probability ls t = Inr (ls', t') \<Longrightarrow> length ls' - Suc 0 < Suc (length ls)"
  by (drule scan_probability_length) simp

function parse_lines ::
  "string list \<Rightarrow> (string \<times> string list) list \<Rightarrow> cpd list
     \<Rightarrow> error + (string \<times> string list) list \<times> cpd list" where
  "parse_lines [] variables cpds = Inr (variables, cpds)"
| "parse_lines (line # rest) variables cpds =
     (if startswith line ''network'' then parse_lines rest variables cpds
      else if startswith line ''variable'' then
        (case re_match variable_re line of
           Some m \<Rightarrow>
             parse_lines (drop 1 (fst (scan_variable rest [])))
               (variables @ [(the_group m 1, snd (scan_variable rest []))]) cpds
         | None \<Rightarrow> parse_lines rest variables cpds)
      else if startswith line ''probability'' then
        (case re_match probability_re line of
           Some m \<Rightarrow>
             (case scan_probability rest [] of
                Inl e \<Rightarrow> Inl e
              | Inr (rest', table) \<Rightarrow>
                  parse_lines (drop 1 rest') variables
                    (cpds @ [\<lparr>cpd_child = the_group m 1,
                              cpd_parents = (if the_group m 3 \<noteq> []
                                         then map strip (split_on CHR '','' (the_group m 3))
                                         else []),
                              cpd_table = table\<rparr>]))
         | None \<Rightarrow> parse_lines rest variables cpds)
      else parse_lines rest variables cpds)"
  by pat_completeness auto
termination
  by (relation "measure (\<lambda>(ls, vs, cs). length ls)")
     (auto simp: scan_variable_drop dest: scan_probability_drop)

declare parse_lines.simps [simp del]

definition parse_bif :: "string \<Rightarrow> error + (string \<times> string list) list \<times> cpd list" where
  "parse_bif file_contents = parse_lines (cleaned_lines file_contents) [] []"

section \<open>The tabular serializer\<close>

text \<open>
  \<open>convert_to_target_format\<close>. \<open>var_domains\<close> is the dictionary of the variables (a later
  declaration of a name replaces an earlier one). \<open>fmt\<close> stands for the formatting
  \<open>f"{p}"\<close> of a table item. For a table with parents, unpacking
  \<open>for assignment, probs in cpd["table"]\<close> raises \<open>TypeError\<close> at a float item, and the
  enumerator raises \<open>KeyError\<close> at a parent that is not a declared variable.
  \<open>output_lines\<close> is the list \<open>output_lines\<close> of the source before it is joined.
\<close>

definition var_domains_of :: "(string \<times> string list) list \<Rightarrow> (string \<rightharpoonup> string list)" where
  "var_domains_of variables = map_of (rev variables)"

fun table_map_of ::
  "pyval list \<Rightarrow> (string list \<rightharpoonup> pyfloat list) \<Rightarrow> error + (string list \<rightharpoonup> pyfloat list)" where
  "table_map_of [] table_map = Inr table_map"
| "table_map_of (Num x # items) table_map = Inl TypeError"
| "table_map_of (Row assignment probs # items) table_map =
     table_map_of items (table_map(assignment \<mapsto> probs))"

definition header_line :: "cpd \<Rightarrow> string" where
  "header_line c =
     (if cpd_parents c = [] then cpd_child c
      else cpd_child c @ '' '' @ join '' '' (cpd_parents c))"

definition cpd_lines ::
  "(pyval \<Rightarrow> string) \<Rightarrow> (string \<rightharpoonup> string list) \<Rightarrow> cpd \<Rightarrow> error + string list" where
  "cpd_lines fmt var_domains c =
     (if cpd_parents c = []
      then Inr [[], header_line c, join '' '' (map fmt (cpd_table c))]
      else
        (case table_map_of (cpd_table c) Map.empty of
           Inl e \<Rightarrow> Inl e
         | Inr table_map \<Rightarrow>
             (case generate_lexicographic_order (cpd_parents c) var_domains of
                Inl e \<Rightarrow> Inl e
              | Inr lex_order \<Rightarrow>
                  Inr ([[], header_line c] @
                       map (\<lambda>assignment.
                              join '' '' (map (\<lambda>p. fmt (Num p))
                                (case table_map assignment of None \<Rightarrow> [] | Some probs \<Rightarrow> probs)))
                           lex_order))))"

fun all_cpd_lines ::
  "(pyval \<Rightarrow> string) \<Rightarrow> (string \<rightharpoonup> string list) \<Rightarrow> cpd list \<Rightarrow> error + string list" where
  "all_cpd_lines fmt var_domains [] = Inr []"
| "all_cpd_lines fmt var_domains (c # cs) =
     (case cpd_lines fmt var_domains c of
        Inl e \<Rightarrow> Inl e
      | Inr ls \<Rightarrow>
          (case all_cpd_lines fmt var_domains cs of
             Inl e \<Rightarrow> Inl e
           | Inr rest \<Rightarrow> Inr (ls @ rest)))"

definition output_lines ::
  "(pyval \<Rightarrow> string) \<Rightarrow> (string \<times> string list) list \<Rightarrow> cpd list \<Rightarrow> error + string list" where
  "output_lines fmt variables cpds =
     (case all_cpd_lines fmt (var_domains_of variables) cpds of
        Inl e \<Rightarrow> Inl e
      | Inr ls \<Rightarrow>
          Inr ([str_nat (length variables)]
               @ map (\<lambda>(var, domain). var @ '' '' @ join '' '' domain) variables
               @ [str_nat (length cpds)]
               @ ls))"

definition convert_to_target_format ::
  "(pyval \<Rightarrow> string) \<Rightarrow> (string \<times> string list) list \<Rightarrow> cpd list \<Rightarrow> error + string" where
  "convert_to_target_format fmt variables cpds =
     (case output_lines fmt variables cpds of
        Inl e \<Rightarrow> Inl e
      | Inr ls \<Rightarrow> Inr (join [CHR 0x0A] ls))"

section \<open>Claims about the parser\<close>

definition value_error_line :: "string \<Rightarrow> bool" where
  "value_error_line l =
     (if startswith l ''table''
      then (case re_search table_re l of
              None \<Rightarrow> False
            | Some m_table \<Rightarrow> isl (floats (split_on CHR '','' (the_group m_table 1))))
      else (case re_match entry_re l of
              None \<Rightarrow> False
            | Some m_entry \<Rightarrow> isl (floats (split_on CHR '','' (the_group m_entry 2)))))"

lemma floats_error: "floats ps = Inl e \<Longrightarrow> e = ValueError ''float''"
  by (induction ps arbitrary: e)
     (auto simp: py_float_def Let_def split: sum.splits if_splits)

lemma py_float_examples:
  "py_float '' 0.5'' = Inr (PyFloat ''0.5'')"
  "py_float [CHR 0x1F, CHR ''1''] = Inl (ValueError ''float'')"
  by code_simp+

lemma scan_variable_suffix: "set (fst (scan_variable ls d)) \<subseteq> set ls"
  by (induction ls arbitrary: d) (auto split: option.splits)

lemma scan_probability_suffix:
  "scan_probability ls t = Inr (ls', t') \<Longrightarrow> set ls' \<subseteq> set ls"
  by (induction ls arbitrary: t) (auto split: option.splits sum.splits if_splits)

lemma scan_probability_error:
  "scan_probability ls t = Inl e \<Longrightarrow> e = ValueError ''float''"
  by (induction ls arbitrary: t)
     (auto split: option.splits sum.splits if_splits dest: floats_error)

lemma scan_probability_ok:
  "\<forall>l \<in> set ls. \<not> value_error_line l \<Longrightarrow> \<exists>r. scan_probability ls t = Inr r"
proof (induction ls arbitrary: t)
  case Nil
  then show ?case by simp
next
  case (Cons l ls)
  then have l: "\<not> value_error_line l" and rest: "\<forall>l \<in> set ls. \<not> value_error_line l"
    by auto
  show ?case
  proof (cases "l = ''}''")
    case True
    then show ?thesis by simp
  next
    case close: False
    show ?thesis
    proof (cases "startswith l ''table''")
      case True
      with l close Cons.IH [OF rest] show ?thesis
        by (auto simp: value_error_line_def split: option.splits sum.splits)
    next
      case False
      with l close Cons.IH [OF rest] show ?thesis
        by (auto simp: value_error_line_def split: option.splits sum.splits)
    qed
  qed
qed

lemma parse_lines_error:
  "parse_lines ls vs cs = Inl e \<Longrightarrow> e = ValueError ''float''"
proof (induction ls vs cs rule: parse_lines.induct)
  case (1 variables cpds)
  then show ?case by (simp add: parse_lines.simps)
next
  case (2 line rest variables cpds)
  note p = "2.prems"
  show ?case
  proof (cases "startswith line ''network''")
    case True
    with p have "parse_lines rest variables cpds = Inl e"
      by (simp add: parse_lines.simps(2) [of line])
    then show ?thesis by (rule "2.IH"(1) [OF True])
  next
    case nn: False
    show ?thesis
    proof (cases "startswith line ''variable''")
      case True
      show ?thesis
      proof (cases "re_match variable_re line")
        case None
        with p nn True have "parse_lines rest variables cpds = Inl e"
          by (simp add: parse_lines.simps(2) [of line])
        then show ?thesis by (rule "2.IH"(2) [OF nn True None])
      next
        case (Some m)
        with p nn True have "parse_lines (drop 1 (fst (scan_variable rest [])))
               (variables @ [(the_group m 1, snd (scan_variable rest []))]) cpds = Inl e"
          by (simp add: parse_lines.simps(2) [of line])
        then show ?thesis by (rule "2.IH"(3) [OF nn True Some])
      qed
    next
      case nv: False
      show ?thesis
      proof (cases "startswith line ''probability''")
        case False
        with p nn nv have "parse_lines rest variables cpds = Inl e"
          by (simp add: parse_lines.simps(2) [of line])
        then show ?thesis by (rule "2.IH"(6) [OF nn nv False])
      next
        case True
        show ?thesis
        proof (cases "re_match probability_re line")
          case None
          with p nn nv True have "parse_lines rest variables cpds = Inl e"
            by (simp add: parse_lines.simps(2) [of line])
          then show ?thesis by (rule "2.IH"(4) [OF nn nv True None])
        next
          case (Some m)
          show ?thesis
          proof (cases "scan_probability rest []")
            case (Inl e')
            with p nn nv True Some have "e = e'"
              by (simp add: parse_lines.simps(2) [of line])
            with scan_probability_error [OF Inl] show ?thesis by simp
          next
            case (Inr r)
            obtain rest' tbl where r: "r = (rest', tbl)" by (cases r)
            with Inr have sp: "scan_probability rest [] = Inr (rest', tbl)" by simp
            with p nn nv True Some have "parse_lines (drop 1 rest') variables
                    (cpds @ [\<lparr>cpd_child = the_group m 1,
                              cpd_parents = (if the_group m 3 \<noteq> []
                                         then map strip (split_on CHR '','' (the_group m 3))
                                         else []),
                              cpd_table = tbl\<rparr>]) = Inl e"
              by (simp add: parse_lines.simps(2) [of line])
            then show ?thesis by (rule "2.IH"(5) [OF nn nv True Some sp refl])
          qed
        qed
      qed
    qed
  qed
qed

lemma parse_lines_ok:
  "\<forall>l \<in> set ls. \<not> value_error_line l \<Longrightarrow> \<exists>r. parse_lines ls vs cs = Inr r"
proof (induction ls vs cs rule: parse_lines.induct)
  case (1 variables cpds)
  show ?case by (simp add: parse_lines.simps)
next
  case (2 line rest variables cpds)
  from "2.prems" have rest: "\<forall>l \<in> set rest. \<not> value_error_line l" by simp
  show ?case
  proof (cases "startswith line ''network''")
    case True
    with "2.IH"(1) [OF True rest] show ?thesis
      by (simp add: parse_lines.simps(2) [of line])
  next
    case nn: False
    show ?thesis
    proof (cases "startswith line ''variable''")
      case True
      show ?thesis
      proof (cases "re_match variable_re line")
        case None
        with "2.IH"(2) [OF nn True None rest] nn True show ?thesis
          by (simp add: parse_lines.simps(2) [of line])
      next
        case (Some m)
        have "\<forall>l \<in> set (drop 1 (fst (scan_variable rest []))). \<not> value_error_line l"
          using rest scan_variable_suffix [of rest "[]"] set_drop_subset [of 1 "fst (scan_variable rest [])"]
            by blast
        with "2.IH"(3) [OF nn True Some] nn True Some show ?thesis
          by (simp add: parse_lines.simps(2) [of line])
      qed
    next
      case nv: False
      show ?thesis
      proof (cases "startswith line ''probability''")
        case False
        with "2.IH"(6) [OF nn nv False rest] nn nv show ?thesis
          by (simp add: parse_lines.simps(2) [of line])
      next
        case True
        show ?thesis
        proof (cases "re_match probability_re line")
          case None
          with "2.IH"(4) [OF nn nv True None rest] nn nv True show ?thesis
            by (simp add: parse_lines.simps(2) [of line])
        next
          case (Some m)
          from scan_probability_ok [OF rest, of "[]"] obtain rest' tbl where
            sp: "scan_probability rest [] = Inr (rest', tbl)" by force
          have "\<forall>l \<in> set (drop 1 rest'). \<not> value_error_line l"
            using rest scan_probability_suffix [OF sp] set_drop_subset [of 1 rest'] by blast
          with "2.IH"(5) [OF nn nv True Some sp refl] nn nv True Some sp show ?thesis
            by (simp add: parse_lines.simps(2) [of line])
        qed
      qed
    qed
  qed
qed

lemma startswith_exclusive:
  "startswith line ''variable'' \<Longrightarrow> \<not> startswith line ''network''"
  "startswith line ''probability'' \<Longrightarrow> \<not> startswith line ''network'' \<and> \<not> startswith line ''variable''"
  by (cases line; auto simp: startswith_def)+

text \<open>
  C7 (as the code has it). The parser ends on every text, and the only error it raises is
  the \<open>ValueError\<close> of \<open>float\<close>: when no cleaned line is a \<open>table\<close> line or a
  conditional row whose values \<open>float\<close> rejects, parsing returns a network. A
  \<open>variable\<close> or \<open>probability\<close> line that does not match its header pattern is
  skipped, and so is every line that starts with none of the three keywords.
\<close>

theorem parse_bif_permissive:
  "(list_all (\<lambda>l. \<not> value_error_line l) (cleaned_lines text) \<longrightarrow>
      (\<exists>network. parse_bif text = Inr network))
   \<and> (\<forall>e. parse_bif text = Inl e \<longrightarrow> e = ValueError ''float'')
   \<and> (startswith line ''variable'' \<and> re_match variable_re line = None \<longrightarrow>
        parse_lines (line # rest) vs cs = parse_lines rest vs cs)
   \<and> (startswith line ''probability'' \<and> re_match probability_re line = None \<longrightarrow>
        parse_lines (line # rest) vs cs = parse_lines rest vs cs)
   \<and> (\<not> startswith line ''network'' \<and> \<not> startswith line ''variable''
        \<and> \<not> startswith line ''probability'' \<longrightarrow>
        parse_lines (line # rest) vs cs = parse_lines rest vs cs)"
proof (intro conjI impI allI)
  assume "list_all (\<lambda>l. \<not> value_error_line l) (cleaned_lines text)"
  then have "\<forall>l \<in> set (cleaned_lines text). \<not> value_error_line l"
    by (simp add: list_all_iff)
  then show "\<exists>network. parse_bif text = Inr network"
    unfolding parse_bif_def by (rule parse_lines_ok)
next
  fix e assume "parse_bif text = Inl e"
  then show "e = ValueError ''float''"
    unfolding parse_bif_def by (rule parse_lines_error)
next
  assume "startswith line ''variable'' \<and> re_match variable_re line = None"
  then show "parse_lines (line # rest) vs cs = parse_lines rest vs cs"
    using startswith_exclusive(1) [of line] by (simp add: parse_lines.simps(2) [of line])
next
  assume "startswith line ''probability'' \<and> re_match probability_re line = None"
  then show "parse_lines (line # rest) vs cs = parse_lines rest vs cs"
    using startswith_exclusive(2) [of line] by (simp add: parse_lines.simps(2) [of line])
next
  assume "\<not> startswith line ''network'' \<and> \<not> startswith line ''variable''
        \<and> \<not> startswith line ''probability''"
  then show "parse_lines (line # rest) vs cs = parse_lines rest vs cs"
    by (simp add: parse_lines.simps(2) [of line])
qed

theorem parse_bif_permissive_witness:
  "(\<exists>network. parse_bif (''variable'' @ [CHR 0x0A] @ ''probability A {'' @ [CHR 0x0A] @ ''foo'')
       = Inr network)
   \<and> parse_lines [''variable'', ''foo''] [] [] = parse_lines [''foo''] [] []"
proof -
  have "list_all (\<lambda>l. \<not> value_error_line l)
          (cleaned_lines (''variable'' @ [CHR 0x0A] @ ''probability A {'' @ [CHR 0x0A] @ ''foo''))"
    by code_simp
  moreover have "startswith ''variable'' ''variable'' \<and> re_match variable_re ''variable'' = None"
    by code_simp
  ultimately show ?thesis
    using parse_bif_permissive
      [of "''variable'' @ [CHR 0x0A] @ ''probability A {'' @ [CHR 0x0A] @ ''foo''" "''variable''"
          "[''foo'']" "[]" "[]"]
    by blast
qed

lemma parse_bif_bad_value:
  "parse_bif (''probability ( A ) {'' @ [CHR 0x0A] @ ''table x;'' @ [CHR 0x0A] @ ''}'')
     = Inl (ValueError ''float'')"
  by code_simp

theorem parse_bif_raises_counterexample:
  "\<not> (\<forall>text. \<exists>network. parse_bif text = Inr network)"
proof
  assume "\<forall>text. \<exists>network. parse_bif text = Inr network"
  then obtain network where
    "parse_bif (''probability ( A ) {'' @ [CHR 0x0A] @ ''table x;'' @ [CHR 0x0A] @ ''}'') = Inr network"
    by blast
  with parse_bif_bad_value show False by simp
qed

definition brace_list :: "string \<Rightarrow> string list option" where
  "brace_list l =
     (case re_search domain_re l of
        None \<Rightarrow> None
      | Some m2 \<Rightarrow> Some (map strip (split_on CHR '','' (the_group m2 1))))"

lemma scan_variable_fold:
  "''}'' \<notin> set body \<Longrightarrow>
     scan_variable (body @ ''}'' # rest) d
       = (''}'' # rest, fold (\<lambda>l d. case brace_list l of None \<Rightarrow> d | Some d' \<Rightarrow> d') body d)"
  by (induction body arbitrary: d) (auto simp: brace_list_def split: option.splits)

lemma fold_last_brace_list:
  "filter (\<lambda>l. brace_list l \<noteq> None) body \<noteq> [] \<Longrightarrow>
     fold (\<lambda>l d. case brace_list l of None \<Rightarrow> d | Some d' \<Rightarrow> d') body d
       = the (brace_list (last (filter (\<lambda>l. brace_list l \<noteq> None) body)))"
proof (induction body rule: rev_induct)
  case Nil
  then show ?case by simp
next
  case (snoc l body)
  show ?case
  proof (cases "brace_list l")
    case None
    with snoc show ?thesis by simp
  next
    case (Some d')
    then show ?thesis by simp
  qed
qed

text \<open>
  What the domain pattern reads off a line: when the line is some text without \<open>{\<close>,
  then \<open>{\<close>, white space, a content that holds neither \<open>}\<close> nor a line feed and neither
  starts nor ends with white space, white space, \<open>}\<close> and any rest, the captured group
  is that content, so the list is the content split at commas, each piece trimmed, in
  the order written.
\<close>

lemma concat_map_skip:
  "\<forall>x \<in> set xs. f x = [] \<Longrightarrow> concat (map f (xs @ ys)) = concat (map f ys)"
  by (induction xs) auto

lemma in_class_Space: "in_class Space = is_space"
  by (rule ext) simp

lemma brace_tail_eq:
  "mseq [Many Space 0 True, Lit ''}''] (u, caps)
     = concat (map (\<lambda>k. if take 1 (drop k u) = ''}'' then [(drop (Suc k) u, caps)] else [])
                (rev [0..<length (takeWhile is_space u) + 1]))"
proof -
  have aux: "\<And>c a. concat (map (mseq []) (if c then [a] else []))
                = (if c then [a::string \<times> captures] else [])"
    by simp
  show ?thesis
    by (simp add: Let_def comp_def in_class_Space aux del: upt_Suc cong del: if_weak_cong)
qed

lemma brace_tail_caps:
  "(s', caps') \<in> set (mseq [Many Space 0 True, Lit ''}''] (u, caps)) \<Longrightarrow> caps' = caps"
  unfolding brace_tail_eq by (auto split: if_splits)

lemma not_space_brace: "\<not> is_space CHR ''}''"
  by (simp add: is_space_def)

lemma brace_tail_match:
  assumes "\<forall>c \<in> set ws. is_space c"
  shows "mseq [Many Space 0 True, Lit ''}''] (ws @ CHR ''}'' # post, caps) \<noteq> []"
proof -
  from assms not_space_brace have tw: "takeWhile is_space (ws @ CHR ''}'' # post) = ws"
    by (simp add: takeWhile_append2)
  have "length ws \<in> set (rev [0..<length ws + 1])" by simp
  moreover have "take 1 (drop (length ws) (ws @ CHR ''}'' # post)) = ''}''" by simp
  ultimately have "\<exists>k \<in> set (rev [0..<length ws + 1]).
      (if take 1 (drop k (ws @ CHR ''}'' # post)) = ''}''
       then [(drop (Suc k) (ws @ CHR ''}'' # post), caps)] else []) \<noteq> []"
    by (intro bexI [of _ "length ws"]) simp_all
  then show ?thesis
    unfolding brace_tail_eq tw by (simp only: concat_eq_Nil_conv set_map) blast
qed

lemma brace_tail_fail:
  assumes "\<forall>c \<in> set sp. is_space c" and "\<not> is_space c" and "c \<noteq> CHR ''}''"
  shows "mseq [Many Space 0 True, Lit ''}''] (sp @ c # r, caps) = []"
proof -
  from assms have tw: "takeWhile is_space (sp @ c # r) = sp"
    by (simp add: takeWhile_append2)
  have "\<And>k. k \<in> set (rev [0..<length sp + 1]) \<Longrightarrow> take 1 (drop k (sp @ c # r)) \<noteq> ''}''"
  proof -
    fix k assume "k \<in> set (rev [0..<length sp + 1])"
    then have k: "k \<le> length sp" by auto
    show "take 1 (drop k (sp @ c # r)) \<noteq> ''}''"
    proof (cases "k = length sp")
      case True
      with assms(3) show ?thesis by simp
    next
      case False
      with k have lt: "k < length sp" by simp
      then have "drop k (sp @ c # r) = sp ! k # drop (Suc k) sp @ c # r"
        by (simp add: Cons_nth_drop_Suc)
      moreover from lt assms(1) have "is_space (sp ! k)" by simp
      ultimately show ?thesis using not_space_brace by auto
    qed
  qed
  then show ?thesis
    unfolding brace_tail_eq tw by (simp only: concat_eq_Nil_conv set_map) auto
qed

lemma first_non_space:
  assumes "s \<noteq> []" and "\<not> is_space (last s)"
  shows "\<exists>sp c r. s = sp @ c # r \<and> (\<forall>x \<in> set sp. is_space x) \<and> \<not> is_space c"
proof -
  have "dropWhile is_space s \<noteq> []"
    using assms by (metis dropWhile_eq_Nil_conv last_in_set)
  then obtain c r where d: "dropWhile is_space s = c # r" by (cases "dropWhile is_space s") auto
  then have "\<not> is_space c" by (metis hd_dropWhile list.sel(1) list.distinct(1))
  moreover have "s = takeWhile is_space s @ c # r"
    using d by (metis takeWhile_dropWhile_id)
  moreover have "\<forall>x \<in> set (takeWhile is_space s). is_space x"
    by (meson set_takeWhileD)
  ultimately show ?thesis by blast
qed

lemma lazy_group_eq:
  "mseq [Group 1 [Many AnyChar 0 False], Many Space 0 True, Lit ''}''] (t, caps)
     = concat (map (\<lambda>k. mseq [Many Space 0 True, Lit ''}''] (drop k t, caps(1 \<mapsto> take k t)))
                [0..<length (takeWhile (in_class AnyChar) t) + 1])"
proof -
  let ?N = "length (takeWhile (in_class AnyChar) t)"
  have len: "\<And>k. k \<in> set [0..<?N + 1] \<Longrightarrow> length t - length (drop k t) = k"
  proof -
    fix k assume "k \<in> set [0..<?N + 1]"
    then have "k \<le> ?N" by auto
    also have "?N \<le> length t" by (rule length_takeWhile_le)
    finally show "length t - length (drop k t) = k" by simp
  qed
  have grp: "ms (Group 1 [Many AnyChar 0 False]) (t, caps)
        = map (\<lambda>k. (drop k t, caps(1 \<mapsto> take k t))) [0..<?N + 1]"
    using len by (simp add: Let_def comp_def del: upt_Suc cong: map_cong)
  show ?thesis
    unfolding mseq.simps(2) [of "Group 1 [Many AnyChar 0 False]"] grp
    by (simp only: map_map comp_def)
qed

lemma lazy_group_match:
  assumes ws: "\<forall>c \<in> set ws2. is_space c"
    and nb: "CHR ''}'' \<notin> set content" and nl: "CHR 0x0A \<notin> set content"
    and ends: "content \<noteq> [] \<longrightarrow> \<not> is_space (last content)"
  shows "\<exists>s' rest. mseq [Group 1 [Many AnyChar 0 False], Many Space 0 True, Lit ''}'']
                     (content @ ws2 @ CHR ''}'' # post, caps)
                   = (s', caps(1 \<mapsto> content)) # rest"
proof -
  let ?t = "content @ ws2 @ CHR ''}'' # post"
  let ?N = "length (takeWhile (in_class AnyChar) ?t)"
  let ?h = "\<lambda>k. mseq [Many Space 0 True, Lit ''}''] (drop k ?t, caps(1 \<mapsto> take k ?t))"
  have kN: "length content \<le> ?N"
  proof -
    have "\<forall>c \<in> set content. in_class AnyChar c" using nl by auto
    then have "takeWhile (in_class AnyChar) ?t
        = content @ takeWhile (in_class AnyChar) (ws2 @ CHR ''}'' # post)"
      by (simp add: takeWhile_append2)
    then show ?thesis by simp
  qed
  have split: "[0..<?N + 1] = [0..<length content] @ length content # [Suc (length content)..<?N + 1]"
  proof -
    have "[0..<length content + (?N + 1 - length content)]
          = [0..<length content] @ [length content..<length content + (?N + 1 - length content)]"
      by (rule upt_add_eq_append) simp
    moreover have "length content + (?N + 1 - length content) = ?N + 1"
      using kN by simp
    ultimately have "[0..<?N + 1] = [0..<length content] @ [length content..<?N + 1]"
      by (simp only:)
    moreover have "[length content..<?N + 1] = length content # [Suc (length content)..<?N + 1]"
      using kN by (intro upt_conv_Cons) simp
    ultimately show ?thesis by simp
  qed
  have early: "\<forall>k \<in> set [0..<length content]. ?h k = []"
  proof
    fix k assume "k \<in> set [0..<length content]"
    then have k: "k < length content" by simp
    then have dne: "drop k content \<noteq> []" by simp
    from k ends have "\<not> is_space (last (drop k content))" by auto
    from first_non_space [OF dne this] obtain sp c r where
      d: "drop k content = sp @ c # r" and sp: "\<forall>x \<in> set sp. is_space x" and c: "\<not> is_space c"
      by blast
    have "c \<in> set content" using d by (metis in_set_conv_decomp in_set_dropD)
    with nb have cb: "c \<noteq> CHR ''}''" by auto
    have "drop k ?t = sp @ c # (r @ ws2 @ CHR ''}'' # post)"
      using k d by simp
    then show "?h k = []"
      using brace_tail_fail [OF sp c cb] by (simp only:)
  qed
  have here: "?h (length content) \<noteq> []"
    using brace_tail_match [OF ws, of post "caps(1 \<mapsto> take (length content) ?t)"] by simp
  have eq: "mseq [Group 1 [Many AnyChar 0 False], Many Space 0 True, Lit ''}''] (?t, caps)
        = ?h (length content) @ concat (map ?h [Suc (length content)..<?N + 1])"
    unfolding lazy_group_eq split
    using concat_map_skip [OF early, of "length content # [Suc (length content)..<?N + 1]"]
    by (simp only: concat.simps list.map)
  from here obtain s' c' rest where h: "?h (length content) = (s', c') # rest"
    by (cases "?h (length content)") auto
  then have "(s', c') \<in> set (?h (length content))" by simp
  then have "c' = caps(1 \<mapsto> take (length content) ?t)" by (rule brace_tail_caps)
  then have "c' = caps(1 \<mapsto> content)" by simp
  with eq h show ?thesis by (simp only: append_Cons) blast
qed

lemma mseq_Lit:
  "mseq (Lit l # rs) (s, caps)
     = (if take (length l) s = l then mseq rs (drop (length l) s, caps) else [])"
  by simp

lemma mseq_Many_greedy:
  "mseq (Many cls mn True # rs) (s, caps)
     = concat (map (\<lambda>k. mseq rs (drop k s, caps))
                (rev [mn..<length (takeWhile (in_class cls) s) + 1]))"
  by (simp add: Let_def comp_def del: upt_Suc)

lemma domain_re_space_step:
  "mseq domain_re (CHR ''{'' # t, caps)
     = concat (map (\<lambda>k. mseq [Group 1 [Many AnyChar 0 False], Many Space 0 True, Lit ''}'']
                           (drop k t, caps))
                (rev [0..<length (takeWhile is_space t) + 1]))"
proof -
  have "mseq domain_re (CHR ''{'' # t, caps)
        = mseq [Many Space 0 True, Group 1 [Many AnyChar 0 False], Many Space 0 True, Lit ''}'']
            (t, caps)"
    unfolding domain_re_def by (subst mseq_Lit) simp
  then show ?thesis
    by (simp only: mseq_Many_greedy in_class_Space)
qed

lemma domain_re_match:
  assumes ws1: "\<forall>c \<in> set ws1. is_space c" and ws2: "\<forall>c \<in> set ws2. is_space c"
    and nb: "CHR ''}'' \<notin> set content" and nl: "CHR 0x0A \<notin> set content"
    and ends: "content \<noteq> [] \<longrightarrow> \<not> is_space (hd content) \<and> \<not> is_space (last content)"
  shows "\<exists>caps. re_match domain_re (CHR ''{'' # ws1 @ content @ ws2 @ CHR ''}'' # post) = Some caps
           \<and> caps 1 = Some content"
proof -
  let ?t = "ws1 @ content @ ws2 @ CHR ''}'' # post"
  let ?n = "length (takeWhile is_space ?t)"
  let ?g = "\<lambda>k. mseq [Group 1 [Many AnyChar 0 False], Many Space 0 True, Lit ''}'']
                  (drop k ?t, Map.empty)"
  have "\<exists>s' rest. ?g ?n = (s', [1 \<mapsto> content]) # rest"
  proof (cases "content = []")
    case True
    have "takeWhile is_space ?t = ws1 @ ws2"
      using ws1 ws2 not_space_brace True by (simp add: takeWhile_append2)
    then have "drop ?n ?t = [] @ [] @ CHR ''}'' # post"
      using True by simp
    moreover have "\<exists>s' rest. mseq [Group 1 [Many AnyChar 0 False], Many Space 0 True, Lit ''}'']
                     ([] @ [] @ CHR ''}'' # post, Map.empty) = (s', [1 \<mapsto> []]) # rest"
      by (rule lazy_group_match) simp_all
    ultimately show ?thesis using True by (simp only:)
  next
    case False
    then obtain c r where cr: "content = c # r" by (cases content) auto
    with ends have "\<not> is_space c" by simp
    then have "takeWhile is_space ?t = ws1"
      using ws1 cr by (simp add: takeWhile_append2)
    then have "drop ?n ?t = content @ ws2 @ CHR ''}'' # post" by simp
    moreover have "\<exists>s' rest. mseq [Group 1 [Many AnyChar 0 False], Many Space 0 True, Lit ''}'']
                     (content @ ws2 @ CHR ''}'' # post, Map.empty) = (s', [1 \<mapsto> content]) # rest"
      using ws2 nb nl ends by (intro lazy_group_match) simp_all
    ultimately show ?thesis by (simp only:)
  qed
  then obtain s' rest where g: "?g ?n = (s', [1 \<mapsto> content]) # rest" by blast
  have "rev [0..<?n + 1] = ?n # rev [0..<?n]" by simp
  then have "mseq domain_re (CHR ''{'' # ?t, Map.empty) = ?g ?n @ concat (map ?g (rev [0..<?n]))"
    unfolding domain_re_space_step by (simp only: list.map concat.simps)
  with g have "mseq domain_re (CHR ''{'' # ?t, Map.empty)
      = (s', [1 \<mapsto> content]) # rest @ concat (map ?g (rev [0..<?n]))"
    by (simp only: append_Cons)
  then show ?thesis by (simp add: re_match_def)
qed

lemma domain_re_search_prefix:
  "CHR ''{'' \<notin> set pre \<Longrightarrow> re_match domain_re (CHR ''{'' # t) = Some caps \<Longrightarrow>
     re_search domain_re (pre @ CHR ''{'' # t) = Some caps"
proof (induction pre)
  case Nil
  then show ?case by simp
next
  case (Cons c pre)
  then have "c \<noteq> CHR ''{''" by auto
  then have "re_match domain_re (c # pre @ CHR ''{'' # t) = None"
    by (simp add: re_match_def domain_re_def)
  with Cons show ?case by simp
qed

lemma brace_list_shape:
  assumes "CHR ''{'' \<notin> set pre"
    and "\<forall>c \<in> set ws1. is_space c" and "\<forall>c \<in> set ws2. is_space c"
    and "CHR ''}'' \<notin> set content" and "CHR 0x0A \<notin> set content"
    and "content \<noteq> [] \<longrightarrow> \<not> is_space (hd content) \<and> \<not> is_space (last content)"
  shows "brace_list (pre @ ''{'' @ ws1 @ content @ ws2 @ ''}'' @ post)
           = Some (map strip (split_on CHR '','' content))"
proof -
  from domain_re_match [OF assms(2-6), of post] obtain caps where
    "re_match domain_re (CHR ''{'' # ws1 @ content @ ws2 @ CHR ''}'' # post) = Some caps"
    "caps 1 = Some content" by blast
  with domain_re_search_prefix [OF assms(1) this(1)] show ?thesis
    by (simp add: brace_list_def the_group_def)
qed

lemma brace_list_example:
  "brace_list ''type discrete [ 2 ] {  yes , no  };'' = Some [''yes'', ''no'']"
  by code_simp

text \<open>
  C8 (as the code has it). For a \<open>variable\<close> header that matches, followed by body lines
  none of which is \<open>}\<close> and at least one of which holds a brace-delimited list, and
  then the closing \<open>}\<close>: the parser appends the variable with the domain taken from
  the last body line that holds such a list, its comma-separated values trimmed and in
  the order listed.
\<close>

theorem variable_block_domain:
  assumes "startswith hdr ''variable''" and "re_match variable_re hdr = Some m"
    and "''}'' \<notin> set body" and "filter (\<lambda>l. brace_list l \<noteq> None) body \<noteq> []"
  shows "parse_lines (hdr # body @ ''}'' # rest) vs cs
       = parse_lines rest
           (vs @ [(the_group m 1,
                   the (brace_list (last (filter (\<lambda>l. brace_list l \<noteq> None) body))))]) cs"
  using assms startswith_exclusive(1) [of hdr]
  by (simp add: parse_lines.simps(2) [of hdr] scan_variable_fold fold_last_brace_list)

lemma two_list_block:
  "parse_lines [''variable A {'', ''{ a, b }'', ''{ c, d }'', ''}''] [] []
     = Inr ([(''A'', [''c'', ''d''])], [])"
  by code_simp

theorem variable_block_domain_witness:
  "parse_lines ([''variable A {''] @ [''{ a, b }'', ''{ c, d }''] @ [''}'']) [] []
     = Inr ([(''A'', the (brace_list ''{ c, d }''))], [])
   \<and> brace_list ''{ c, d }'' = Some [''c'', ''d'']"
proof -
  obtain m where m: "re_match variable_re ''variable A {'' = Some m" "the_group m 1 = ''A''"
  proof -
    have "map_option (\<lambda>m. the_group m 1) (re_match variable_re ''variable A {'') = Some ''A''"
      by code_simp
    then show ?thesis using that by auto
  qed
  have s: "startswith ''variable A {'' ''variable''" by code_simp
  have b: "''}'' \<notin> set [''{ a, b }'', ''{ c, d }'']" by simp
  have f: "filter (\<lambda>l. brace_list l \<noteq> None) [''{ a, b }'', ''{ c, d }''] = [''{ a, b }'', ''{ c, d }'']"
    by code_simp
  have c: "brace_list ''{ c, d }'' = Some [''c'', ''d'']" by code_simp
  from variable_block_domain [OF s m(1) b, of "[]" "[]" "[]"] f m(2) c
  show ?thesis by (simp add: parse_lines.simps(1))
qed

theorem first_list_counterexample:
  "\<not> (\<forall>hdr m body rest vs cs.
         startswith hdr ''variable'' \<and> re_match variable_re hdr = Some m
         \<and> ''}'' \<notin> set body \<and> filter (\<lambda>l. brace_list l \<noteq> None) body \<noteq> [] \<longrightarrow>
         parse_lines (hdr # body @ ''}'' # rest) vs cs
           = parse_lines rest
               (vs @ [(the_group m 1,
                       the (brace_list (hd (filter (\<lambda>l. brace_list l \<noteq> None) body))))]) cs)"
proof
  assume a: "\<forall>hdr m body rest vs cs.
         startswith hdr ''variable'' \<and> re_match variable_re hdr = Some m
         \<and> ''}'' \<notin> set body \<and> filter (\<lambda>l. brace_list l \<noteq> None) body \<noteq> [] \<longrightarrow>
         parse_lines (hdr # body @ ''}'' # rest) vs cs
           = parse_lines rest
               (vs @ [(the_group m 1,
                       the (brace_list (hd (filter (\<lambda>l. brace_list l \<noteq> None) body))))]) cs"
  obtain m where m: "re_match variable_re ''variable A {'' = Some m" "the_group m 1 = ''A''"
  proof -
    have "map_option (\<lambda>m. the_group m 1) (re_match variable_re ''variable A {'') = Some ''A''"
      by code_simp
    then show ?thesis using that by auto
  qed
  have s: "startswith ''variable A {'' ''variable''" by code_simp
  have b: "''}'' \<notin> set [''{ a, b }'', ''{ c, d }'']" by simp
  have f: "filter (\<lambda>l. brace_list l \<noteq> None) [''{ a, b }'', ''{ c, d }''] = [''{ a, b }'', ''{ c, d }'']"
    by code_simp
  have c: "brace_list ''{ a, b }'' = Some [''a'', ''b'']" by code_simp
  from a [rule_format, of "''variable A {''" m "[''{ a, b }'', ''{ c, d }'']" "[]" "[]" "[]"]
    s m b f c
  have "parse_lines [''variable A {'', ''{ a, b }'', ''{ c, d }'', ''}''] [] []
          = Inr ([(''A'', [''a'', ''b''])], [])"
    by (simp add: parse_lines.simps(1))
  with two_list_block show False by simp
qed

section \<open>Claims about the serializer\<close>

definition is_row :: "pyval \<Rightarrow> bool" where
  "is_row item = (case item of Num x \<Rightarrow> False | Row assignment probs \<Rightarrow> True)"

definition table_lookup :: "pyval list \<Rightarrow> (string list \<rightharpoonup> pyfloat list)" where
  "table_lookup tbl =
     fold (\<lambda>item m. case item of Num x \<Rightarrow> m | Row assignment probs \<Rightarrow> m(assignment \<mapsto> probs))
       tbl Map.empty"

definition row_count :: "(string \<rightharpoonup> string list) \<Rightarrow> cpd \<Rightarrow> nat" where
  "row_count var_domains c =
     (if cpd_parents c = [] then 1
      else prod_list (map (\<lambda>p. length (the (var_domains p))) (cpd_parents c)))"

definition cpd_block ::
  "(pyval \<Rightarrow> string) \<Rightarrow> (string \<rightharpoonup> string list) \<Rightarrow> cpd \<Rightarrow> string list \<Rightarrow> bool" where
  "cpd_block fmt var_domains c block \<longleftrightarrow>
     (\<exists>rows. block = [[], header_line c] @ rows
        \<and> length rows = row_count var_domains c
        \<and> (cpd_parents c \<noteq> [] \<longrightarrow>
             rows = map (\<lambda>assignment.
                           case table_lookup (cpd_table c) assignment of
                             None \<Rightarrow> []
                           | Some probs \<Rightarrow> join '' '' (map (\<lambda>p. fmt (Num p)) probs))
                        (row_major (map (\<lambda>p. the (var_domains p)) (cpd_parents c)))))"

lemma table_map_of_rows:
  "list_all is_row tbl \<Longrightarrow>
     table_map_of tbl m
       = Inr (fold (\<lambda>item m. case item of Num x \<Rightarrow> m | Row assignment probs \<Rightarrow> m(assignment \<mapsto> probs))
                tbl m)"
proof (induction tbl arbitrary: m)
  case Nil
  show ?case by simp
next
  case (Cons item tbl)
  then show ?case by (cases item) (simp_all add: is_row_def)
qed

lemma length_row_major: "length (row_major doms) = prod_list (map length doms)"
  by (simp add: row_major_def)

lemma cpd_lines_block:
  assumes "cpd_parents c \<noteq> [] \<longrightarrow>
             set (cpd_parents c) \<subseteq> dom var_domains \<and> list_all is_row (cpd_table c)"
  shows "\<exists>block. cpd_lines fmt var_domains c = Inr block \<and> cpd_block fmt var_domains c block"
proof (cases "cpd_parents c = []")
  case True
  then show ?thesis
    by (simp add: cpd_lines_def cpd_block_def row_count_def)
next
  case False
  with assms have sub: "set (cpd_parents c) \<subseteq> dom var_domains"
    and rows: "list_all is_row (cpd_table c)" by auto
  have lex: "generate_lexicographic_order (cpd_parents c) var_domains
          = Inr (row_major (map (\<lambda>p. the (var_domains p)) (cpd_parents c)))"
    using sub
    by (simp add: generate_lexicographic_order_def lookup_all_map
        itertools_product_product_lists product_lists_row_major)
  have tm: "table_map_of (cpd_table c) Map.empty = Inr (table_lookup (cpd_table c))"
    using table_map_of_rows [OF rows] by (simp add: table_lookup_def)
  let ?rows = "map (\<lambda>assignment.
                      case table_lookup (cpd_table c) assignment of
                        None \<Rightarrow> []
                      | Some probs \<Rightarrow> join '' '' (map (\<lambda>p. fmt (Num p)) probs))
                   (row_major (map (\<lambda>p. the (var_domains p)) (cpd_parents c)))"
  have eq: "cpd_lines fmt var_domains c = Inr ([[], header_line c] @ ?rows)"
    using False lex tm
    by (auto simp: cpd_lines_def intro!: map_cong split: option.splits)
  have "cpd_block fmt var_domains c ([[], header_line c] @ ?rows)"
    unfolding cpd_block_def
    by (intro exI [of _ ?rows]) (simp add: False row_count_def length_row_major comp_def)
  with eq show ?thesis by blast
qed

lemma all_cpd_lines_blocks:
  assumes "\<forall>c \<in> set cpds. cpd_parents c \<noteq> [] \<longrightarrow>
             set (cpd_parents c) \<subseteq> dom var_domains \<and> list_all is_row (cpd_table c)"
  shows "\<exists>blocks. all_cpd_lines fmt var_domains cpds = Inr (concat blocks)
           \<and> list_all2 (cpd_block fmt var_domains) cpds blocks"
  using assms
proof (induction cpds)
  case Nil
  then show ?case by simp
next
  case (Cons c cpds)
  from Cons.prems cpd_lines_block [of c var_domains fmt] obtain block where
    b: "cpd_lines fmt var_domains c = Inr block" "cpd_block fmt var_domains c block"
    by auto
  from Cons obtain blocks where
    bs: "all_cpd_lines fmt var_domains cpds = Inr (concat blocks)"
      "list_all2 (cpd_block fmt var_domains) cpds blocks"
    by auto
  from b bs have "all_cpd_lines fmt var_domains (c # cpds) = Inr (concat (block # blocks))"
    and "list_all2 (cpd_block fmt var_domains) (c # cpds) (block # blocks)"
    by simp_all
  then show ?case by blast
qed

text \<open>
  C6 (as the code has it). For a network in which every table with parents names only
  declared variables as parents and holds only assignment rows: the serializer returns
  the count and variable lines followed, for each table in order, by a blank line, the
  header and the row lines. A table without parents has exactly one row line; a table
  with parents has one row line per assignment of the enumerator's row-major order,
  that is the product of the parents' domain sizes, and the line of an assignment
  absent from the table mapping is empty.
\<close>

theorem serializer_rows:
  assumes "\<forall>c \<in> set cpds. cpd_parents c \<noteq> [] \<longrightarrow>
             set (cpd_parents c) \<subseteq> dom (var_domains_of variables) \<and> list_all is_row (cpd_table c)"
  shows "\<exists>blocks.
           output_lines fmt variables cpds
             = Inr ([str_nat (length variables)]
                    @ map (\<lambda>(var, domain). var @ '' '' @ join '' '' domain) variables
                    @ [str_nat (length cpds)]
                    @ concat blocks)
         \<and> list_all2 (cpd_block fmt (var_domains_of variables)) cpds blocks"
proof -
  from all_cpd_lines_blocks [OF assms, of fmt] obtain blocks where
    "all_cpd_lines fmt (var_domains_of variables) cpds = Inr (concat blocks)"
    "list_all2 (cpd_block fmt (var_domains_of variables)) cpds blocks"
    by blast
  then show ?thesis
    by (intro exI [of _ blocks]) (simp add: output_lines_def)
qed

theorem serializer_rows_witness:
  "\<exists>blocks.
     output_lines (\<lambda>v. ''p'') [(''A'', [''a'', ''b'']), (''B'', [''x'', ''y''])]
       [\<lparr>cpd_child = ''A'', cpd_parents = [], cpd_table = [Num (PyFloat ''0.4''), Num (PyFloat ''0.6'')]\<rparr>,
        \<lparr>cpd_child = ''B'', cpd_parents = [''A''], cpd_table = [Row [''b''] [PyFloat ''0.1'', PyFloat ''0.9'']]\<rparr>]
       = Inr ([''2'', ''A a b'', ''B x y'', ''2''] @ concat blocks)
   \<and> map length blocks = [3, 4]"
proof -
  let ?vars = "[(''A'', [''a'', ''b'']), (''B'', [''x'', ''y''])]"
  let ?c1 = "\<lparr>cpd_child = ''A'', cpd_parents = [], cpd_table = [Num (PyFloat ''0.4''), Num (PyFloat ''0.6'')]\<rparr>"
  let ?c2 = "\<lparr>cpd_child = ''B'', cpd_parents = [''A''], cpd_table = [Row [''b''] [PyFloat ''0.1'', PyFloat ''0.9'']]\<rparr>"
  have h: "\<forall>c \<in> set [?c1, ?c2]. cpd_parents c \<noteq> [] \<longrightarrow>
             set (cpd_parents c) \<subseteq> dom (var_domains_of ?vars) \<and> list_all is_row (cpd_table c)"
    by (simp add: var_domains_of_def is_row_def)
  from serializer_rows [OF h, of "\<lambda>v. ''p''"] obtain blocks where
    o: "output_lines (\<lambda>v. ''p'') ?vars [?c1, ?c2]
          = Inr ([str_nat (length ?vars)]
                 @ map (\<lambda>(var, domain). var @ '' '' @ join '' '' domain) ?vars
                 @ [str_nat (length [?c1, ?c2])] @ concat blocks)"
    and b: "list_all2 (cpd_block (\<lambda>v. ''p'') (var_domains_of ?vars)) [?c1, ?c2] blocks"
    by blast
  from b obtain b1 b2 where bl: "blocks = [b1, b2]"
    and b1: "cpd_block (\<lambda>v. ''p'') (var_domains_of ?vars) ?c1 b1"
    and b2: "cpd_block (\<lambda>v. ''p'') (var_domains_of ?vars) ?c2 b2"
    by (auto simp: list_all2_Cons1)
  from b1 have "length b1 = 3"
    by (auto simp: cpd_block_def row_count_def)
  moreover from b2 have "length b2 = 4"
    by (auto simp: cpd_block_def row_count_def var_domains_of_def)
  moreover have "str_nat (Suc (Suc 0)) = ''2''" by code_simp
  ultimately show ?thesis
    using o bl by (intro exI [of _ blocks]) simp
qed

lemma parse_undeclared_parent:
  "parse_bif (''probability ( A | B ) {'' @ [CHR 0x0A] @ ''}'')
     = Inr ([], [\<lparr>cpd_child = ''A'', cpd_parents = [''B''], cpd_table = []\<rparr>])"
  by code_simp

lemma convert_undeclared_parent:
  "convert_to_target_format fmt []
     [\<lparr>cpd_child = ''A'', cpd_parents = [''B''], cpd_table = []\<rparr>] = Inl KeyError"
  by (simp add: convert_to_target_format_def output_lines_def cpd_lines_def
      generate_lexicographic_order_def var_domains_of_def)

lemma parse_table_line_in_conditional_block:
  "parse_bif (''variable B {'' @ [CHR 0x0A] @ ''{ x }'' @ [CHR 0x0A] @ ''}'' @ [CHR 0x0A] @
              ''probability ( A | B ) {'' @ [CHR 0x0A] @ ''table 0.5;'' @ [CHR 0x0A] @ ''}'')
     = Inr ([(''B'', [''x''])],
            [\<lparr>cpd_child = ''A'', cpd_parents = [''B''], cpd_table = [Num (PyFloat ''0.5'')]\<rparr>])"
  by code_simp

lemma convert_table_line_in_conditional_block:
  "convert_to_target_format fmt [(''B'', [''x''])]
     [\<lparr>cpd_child = ''A'', cpd_parents = [''B''], cpd_table = [Num (PyFloat ''0.5'')]\<rparr>]
     = Inl TypeError"
  by (simp add: convert_to_target_format_def output_lines_def cpd_lines_def)

theorem serializer_fails_counterexample:
  "\<not> (\<forall>text variables cpds. parse_bif text = Inr (variables, cpds) \<longrightarrow>
         (\<exists>out. convert_to_target_format (\<lambda>v. []) variables cpds = Inr out))"
proof
  assume "\<forall>text variables cpds. parse_bif text = Inr (variables, cpds) \<longrightarrow>
         (\<exists>out. convert_to_target_format (\<lambda>v. []) variables cpds = Inr out)"
  with parse_undeclared_parent obtain out where
    "convert_to_target_format (\<lambda>v. []) []
       [\<lparr>cpd_child = ''A'', cpd_parents = [''B''], cpd_table = []\<rparr>] = Inr out"
    by blast
  then show False by (simp add: convert_undeclared_parent)
qed

end
